theory Spec2Isabelle
  imports Main "HOL-Library.Word"
begin

unbundle bit_operations_syntax

section \<open>The consistent-hash ring of chash\<close>

text \<open>
  The development follows \<^verbatim>\<open>hash_ring/hash_ring.go\<close> (package \<^verbatim>\<open>consistenthash\<close>) and
  the later copy of the same file in package \<^verbatim>\<open>hashring\<close>. The two copies agree on
  every function except \<^verbatim>\<open>GetNode\<close>, whose mapping lookup differs in the type of the
  key it passes to \<^verbatim>\<open>sync.Map.Load\<close>; both lookups are embedded below.

  Conventions of the embedding:
  \<^item> \<^verbatim>\<open>uint64\<close> is \<open>64 word\<close>; \<^verbatim>\<open>int64\<close> is an \<open>int\<close> in the two's-complement
    range, so the conversion \<^verbatim>\<open>int64(x)\<close> is \<open>sint x\<close> and \<^verbatim>\<open>uint64(y)\<close> is
    \<open>word_of_int y\<close>;
  \<^item> a Go \<^verbatim>\<open>string\<close> is a byte sequence, here \<open>string\<close> (a list of 8-bit characters);
  \<^item> the receiver \<^verbatim>\<open>*HashRing\<close> is passed in and returned (state passing); what
    \<^verbatim>\<open>log.Printf\<close> writes is returned as a list of records;
  \<^item> the mutex is not modelled: every operation holds it from entry to exit, so
    each call is one atomic step of the state.
\<close>

subsection \<open>Errors\<close>

datatype sentinel = ErrNoConnectedNodes | ErrNodeExits | ErrNodeNotFound | ErrInHashingKey

text \<open>
  An error is either one of the package-level sentinels itself or a sentinel wrapped by
  \<^verbatim>\<open>fmt.Errorf("%w: ...")\<close> together with the formatted context.
\<close>

datatype error = Sentinel sentinel | Errorf sentinel string

fun errors_Is :: "error \<Rightarrow> sentinel \<Rightarrow> bool" where
  "errors_Is (Sentinel s) t = (s = t)"
| "errors_Is (Errorf s ctx) t = (s = t)"

subsection \<open>Nodes, hashers and configuration\<close>

text \<open>
  A \<^verbatim>\<open>CacheNode\<close> is a reference to a caller-owned object that answers
  \<^verbatim>\<open>GetIdentifier()\<close>: the address tells two objects with one identifier apart.
\<close>

datatype CacheNode = CacheNode (addr: nat) (GetIdentifier: string)

type_synonym uint64 = "64 word"
type_synonym int64 = int

text \<open>
  A \<^verbatim>\<open>hash.Hash64\<close> object is known only through its methods: \<^verbatim>\<open>Write\<close> either fails
  (\<open>None\<close>) or leaves the object in a new state, and \<^verbatim>\<open>Sum64\<close> reads the current sum.
\<close>

codatatype Hash64 = Hash64 (Write: "string \<Rightarrow> Hash64 option") (Sum64: uint64)

text \<open>
  \<^verbatim>\<open>hash/fnv\<close> of the Go standard library, 64-bit variants. \<^verbatim>\<open>sum64a.Write\<close> is
  \<^verbatim>\<open>for _, c := range data { hash ^= sum64a(c); hash *= prime64 }\<close>; \<^verbatim>\<open>sum64.Write\<close>
  multiplies first and then xors.
\<close>

definition offset64 :: uint64 where
  "offset64 = 14695981039346656037"

definition prime64 :: uint64 where
  "prime64 = 1099511628211"

fun sum64a_Write :: "uint64 \<Rightarrow> string \<Rightarrow> uint64" where
  "sum64a_Write hash [] = hash"
| "sum64a_Write hash (c # data) = sum64a_Write ((hash XOR of_char c) * prime64) data"

fun sum64_Write :: "uint64 \<Rightarrow> string \<Rightarrow> uint64" where
  "sum64_Write hash [] = hash"
| "sum64_Write hash (c # data) = sum64_Write ((hash * prime64) XOR of_char c) data"

primcorec sum64a :: "uint64 \<Rightarrow> Hash64" where
  "sum64a s = Hash64 (\<lambda>data. Some (sum64a (sum64a_Write s data))) s"

primcorec sum64 :: "uint64 \<Rightarrow> Hash64" where
  "sum64 s = Hash64 (\<lambda>data. Some (sum64 (sum64_Write s data))) s"

definition New64a :: "unit \<Rightarrow> Hash64" where
  "New64a u = sum64a offset64"

definition New64 :: "unit \<Rightarrow> Hash64" where
  "New64 u = sum64 offset64"

record hashRingConfig =
  HashFunction :: "unit \<Rightarrow> Hash64"
  EnableLogs :: bool

type_synonym HashRingConfigFn = "hashRingConfig \<Rightarrow> hashRingConfig"

definition SetHashFunction :: "(unit \<Rightarrow> Hash64) \<Rightarrow> HashRingConfigFn" where
  "SetHashFunction f = (\<lambda>config. config\<lparr>HashFunction := f\<rparr>)"

definition EnableVerboseLogs :: "bool \<Rightarrow> HashRingConfigFn" where
  "EnableVerboseLogs enabled = (\<lambda>config. config\<lparr>EnableLogs := enabled\<rparr>)"

subsection \<open>The ring\<close>

text \<open>
  \<^verbatim>\<open>sync.Map\<close> has keys of type \<^verbatim>\<open>any\<close>: two keys are equal only when their dynamic
  types and their values are both equal. A key is therefore tagged with its type.
\<close>

datatype any_key = Uint64 uint64 | Int64 int64

record HashRing =
  config :: hashRingConfig
  nodes :: "any_key \<rightharpoonup> CacheNode"
  sortedKeyOfNodes :: "int64 list"

definition HashRingInit :: "HashRingConfigFn list \<Rightarrow> HashRing" where
  "HashRingInit opts =
     \<lparr>config = fold (\<lambda>opt config. opt config) opts
                  \<lparr>HashFunction = New64a, EnableLogs = False\<rparr>,
      nodes = Map.empty,
      sortedKeyOfNodes = []\<rparr>"

datatype log_record =
    LogAdded string uint64
  | LogMapped string uint64 int64
  | LogRemoved string uint64

text \<open>What a call leaves behind: the returned value, the ring and the log lines.\<close>

record 'a outcome =
  result :: 'a
  ring :: HashRing
  logged :: "log_record list"

text \<open>\<^verbatim>\<open>generateHash\<close>: a fresh hasher, one \<^verbatim>\<open>Write\<close>, then \<^verbatim>\<open>Sum64\<close>; \<open>None\<close> is
  the non-nil error of \<^verbatim>\<open>Write\<close>.\<close>

definition generateHash :: "HashRing \<Rightarrow> string \<Rightarrow> uint64 option" where
  "generateHash r key =
     (let h = HashFunction (config r) () in
      case Write h key of
        None \<Rightarrow> None
      | Some h' \<Rightarrow> Some (Sum64 h'))"

text \<open>\<^verbatim>\<open>sort.Search\<close> of the standard library: the loop on \<open>i\<close> and \<open>j\<close>.\<close>

function search_loop :: "(nat \<Rightarrow> bool) \<Rightarrow> nat \<Rightarrow> nat \<Rightarrow> nat" where
  "search_loop f i j =
     (if i < j then
        (let h = (i + j) div 2 in
         if \<not> f h then search_loop f (h + 1) j else search_loop f i h)
      else i)"
  by pat_completeness auto
termination
  by (relation "measure (\<lambda>(f, i, j). j - i)") auto

declare search_loop.simps [simp del]

definition sort_Search :: "nat \<Rightarrow> (nat \<Rightarrow> bool) \<Rightarrow> nat" where
  "sort_Search n f = search_loop f 0 n"

text \<open>\<^verbatim>\<open>slices.Sort\<close> on \<^verbatim>\<open>[]int64\<close>: ascending in the signed order.\<close>

definition slices_Sort :: "int64 list \<Rightarrow> int64 list" where
  "slices_Sort xs = sort xs"

definition binarySearch :: "HashRing \<Rightarrow> int64 \<Rightarrow> error + nat" where
  "binarySearch r key =
     (if length (sortedKeyOfNodes r) = 0 then Inl (Sentinel ErrNoConnectedNodes)
      else
        (let index = sort_Search (length (sortedKeyOfNodes r))
                       (\<lambda>i. sortedKeyOfNodes r ! i \<ge> key) in
         Inr (if index = length (sortedKeyOfNodes r) then 0 else index)))"

definition AddNode :: "HashRing \<Rightarrow> CacheNode \<Rightarrow> error option outcome" where
  "AddNode r node =
     (case generateHash r (GetIdentifier node) of
        None \<Rightarrow>
          \<lparr>result = Some (Errorf ErrInHashingKey (''node '' @ GetIdentifier node)),
           ring = r, logged = []\<rparr>
      | Some hashVal \<Rightarrow>
          (case nodes r (Uint64 hashVal) of
             Some existing \<Rightarrow>
               \<lparr>result = Some (Errorf ErrNodeExits (''node '' @ GetIdentifier node)),
                ring = r, logged = []\<rparr>
           | None \<Rightarrow>
               \<lparr>result = None,
                ring = r\<lparr>nodes := (nodes r)(Uint64 hashVal \<mapsto> node),
                         sortedKeyOfNodes :=
                           slices_Sort (sortedKeyOfNodes r @ [sint hashVal])\<rparr>,
                logged = (if EnableLogs (config r)
                          then [LogAdded (GetIdentifier node) hashVal] else [])\<rparr>))"

text \<open>
  \<^verbatim>\<open>GetNode\<close> of package \<^verbatim>\<open>consistenthash\<close>: the lookup is
  \<^verbatim>\<open>ring.nodes.Load(nodeHash)\<close> with \<^verbatim>\<open>nodeHash\<close> of type \<^verbatim>\<open>int64\<close>.
\<close>

definition GetNode :: "HashRing \<Rightarrow> string \<Rightarrow> (error + CacheNode) outcome" where
  "GetNode r key =
     (case generateHash r key of
        None \<Rightarrow> \<lparr>result = Inl (Errorf ErrInHashingKey key), ring = r, logged = []\<rparr>
      | Some hashVal \<Rightarrow>
          (case binarySearch r (sint hashVal) of
             Inl err \<Rightarrow> \<lparr>result = Inl err, ring = r, logged = []\<rparr>
           | Inr index \<Rightarrow>
               (let nodeHash = sortedKeyOfNodes r ! index in
                case nodes r (Int64 nodeHash) of
                  Some node \<Rightarrow>
                    \<lparr>result = Inr node, ring = r,
                     logged = (if EnableLogs (config r)
                               then [LogMapped key hashVal nodeHash] else [])\<rparr>
                | None \<Rightarrow>
                    \<lparr>result = Inl (Errorf ErrNodeNotFound (''no node found for key '' @ key)),
                     ring = r, logged = []\<rparr>)))"

text \<open>
  \<^verbatim>\<open>GetNode\<close> of package \<^verbatim>\<open>hashring\<close>: the same function, except that the lookup
  is \<^verbatim>\<open>ring.nodes.Load(uint64(nodeHash))\<close> (``convert int64 back to uint64 to match
  the key type used when storing'').
\<close>

definition GetNode_hashring :: "HashRing \<Rightarrow> string \<Rightarrow> (error + CacheNode) outcome" where
  "GetNode_hashring r key =
     (case generateHash r key of
        None \<Rightarrow> \<lparr>result = Inl (Errorf ErrInHashingKey key), ring = r, logged = []\<rparr>
      | Some hashVal \<Rightarrow>
          (case binarySearch r (sint hashVal) of
             Inl err \<Rightarrow> \<lparr>result = Inl err, ring = r, logged = []\<rparr>
           | Inr index \<Rightarrow>
               (let nodeHash = sortedKeyOfNodes r ! index in
                case nodes r (Uint64 (word_of_int nodeHash)) of
                  Some node \<Rightarrow>
                    \<lparr>result = Inr node, ring = r,
                     logged = (if EnableLogs (config r)
                               then [LogMapped key hashVal nodeHash] else [])\<rparr>
                | None \<Rightarrow>
                    \<lparr>result = Inl (Errorf ErrNodeNotFound (''no node found for key '' @ key)),
                     ring = r, logged = []\<rparr>)))"

text \<open>
  \<^verbatim>\<open>RemoveNode\<close>: \<^verbatim>\<open>LoadAndDelete\<close> has already deleted the entry when the ordered
  search runs; \<^verbatim>\<open>append(s[:index], s[index+1:]...)\<close> drops position \<open>index\<close>.
\<close>

definition RemoveNode :: "HashRing \<Rightarrow> CacheNode \<Rightarrow> error option outcome" where
  "RemoveNode r node =
     (case generateHash r (GetIdentifier node) of
        None \<Rightarrow>
          \<lparr>result = Some (Errorf ErrInHashingKey (GetIdentifier node)),
           ring = r, logged = []\<rparr>
      | Some hashVal \<Rightarrow>
          (case nodes r (Uint64 hashVal) of
             None \<Rightarrow>
               \<lparr>result = Some (Errorf ErrNodeNotFound (GetIdentifier node)),
                ring = r, logged = []\<rparr>
           | Some deleted \<Rightarrow>
               (let r1 = r\<lparr>nodes := (nodes r)(Uint64 hashVal := None)\<rparr> in
                case binarySearch r1 (sint hashVal) of
                  Inl err \<Rightarrow> \<lparr>result = Some err, ring = r1, logged = []\<rparr>
                | Inr index \<Rightarrow>
                    \<lparr>result = None,
                     ring = r1\<lparr>sortedKeyOfNodes :=
                                  take index (sortedKeyOfNodes r1)
                                  @ drop (index + 1) (sortedKeyOfNodes r1)\<rparr>,
                     logged = (if EnableLogs (config r)
                               then [LogRemoved (GetIdentifier node) hashVal] else [])\<rparr>)))"


subsection \<open>Invariants and reachable rings\<close>

text \<open>The entries of the ordered sequence are \<^verbatim>\<open>int64\<close> values.\<close>

definition int64_values :: "HashRing \<Rightarrow> bool" where
  "int64_values r \<longleftrightarrow> (\<forall>s \<in> set (sortedKeyOfNodes r). - (2 ^ 63) \<le> s \<and> s < 2 ^ 63)"

text \<open>
  I1: the hash values that are keys of the mapping are exactly the values of the ordered
  sequence (the mapping is keyed by \<^verbatim>\<open>uint64\<close>, the sequence holds \<^verbatim>\<open>int64\<close>).
\<close>

definition I1 :: "HashRing \<Rightarrow> bool" where
  "I1 r \<longleftrightarrow> dom (nodes r) = (\<lambda>s. Uint64 (word_of_int s)) ` set (sortedKeyOfNodes r)"

text \<open>I2: the ordered sequence has no duplicates and is sorted ascending.\<close>

definition I2 :: "HashRing \<Rightarrow> bool" where
  "I2 r \<longleftrightarrow> distinct (sortedKeyOfNodes r) \<and> sorted (sortedKeyOfNodes r)"

text \<open>Every node is stored under the hash of its own identifier.\<close>

definition keyed_by_hash :: "HashRing \<Rightarrow> bool" where
  "keyed_by_hash r \<longleftrightarrow>
     (\<forall>h n. nodes r (Uint64 h) = Some n \<longrightarrow> generateHash r (GetIdentifier n) = Some h)"

definition ring_inv :: "HashRing \<Rightarrow> bool" where
  "ring_inv r \<longleftrightarrow> int64_values r \<and> I1 r \<and> I2 r \<and> keyed_by_hash r"

text \<open>
  The rings a caller can hold: the fields are unexported, so a ring is what
  \<^verbatim>\<open>HashRingInit\<close> returned, changed only by calls of the three methods.
\<close>

inductive reaches :: "HashRing \<Rightarrow> HashRing \<Rightarrow> bool" for r0 :: HashRing where
  start: "reaches r0 r0"
| add: "reaches r0 r \<Longrightarrow> reaches r0 (ring (AddNode r node))"
| get: "reaches r0 r \<Longrightarrow> reaches r0 (ring (GetNode r key))"
| get_hashring: "reaches r0 r \<Longrightarrow> reaches r0 (ring (GetNode_hashring r key))"
| remove: "reaches r0 r \<Longrightarrow> reaches r0 (ring (RemoveNode r node))"

definition reachable :: "HashRing \<Rightarrow> bool" where
  "reachable r \<longleftrightarrow> (\<exists>opts. reaches (HashRingInit opts) r)"

text \<open>
  The clockwise successor of a hash in a sorted sequence: the first entry that is not
  below it, and the first entry of all when there is none.
\<close>

definition clockwise :: "int64 list \<Rightarrow> int64 \<Rightarrow> int64" where
  "clockwise xs key =
     (case filter (\<lambda>x. key \<le> x) xs of
        y # ys \<Rightarrow> y
      | [] \<Rightarrow> (case xs of x # xs' \<Rightarrow> x | [] \<Rightarrow> 0))"

subsection \<open>Vocabulary of the properties\<close>

text \<open>A call failed with an error that \<^verbatim>\<open>errors.Is\<close> matches against the sentinel.\<close>

definition fails_with :: "error option \<Rightarrow> sentinel \<Rightarrow> bool" where
  "fails_with res s = (case res of None \<Rightarrow> False | Some e \<Rightarrow> errors_Is e s)"

text \<open>A \<^verbatim>\<open>hash.Hash64\<close> whose \<^verbatim>\<open>Write\<close> reports an error on every input.\<close>

definition failing_writer :: "unit \<Rightarrow> Hash64" where
  "failing_writer u = Hash64 (\<lambda>data. None) 0"


text \<open>
  The 64-bit FNV-1a hash as the specification names it, on the bytes as numbers: start
  from the offset basis; for each byte, xor it in and multiply by the FNV prime, keeping
  64 bits.
\<close>

fun fnv1a_fold :: "nat \<Rightarrow> nat list \<Rightarrow> nat" where
  "fnv1a_fold h [] = h"
| "fnv1a_fold h (b # bs) = fnv1a_fold (((h XOR b) * 1099511628211) mod 2 ^ 64) bs"

definition FNV1a_64 :: "nat list \<Rightarrow> nat" where
  "FNV1a_64 bytes = fnv1a_fold 14695981039346656037 bytes"

text \<open>
  \<open>c\<close> is the clockwise successor of \<open>k\<close> among the hashes \<open>S\<close>: the smallest member
  that is not below \<open>k\<close>, and the smallest member of all when every member is below.
\<close>

definition is_successor :: "int set \<Rightarrow> int \<Rightarrow> int \<Rightarrow> bool" where
  "is_successor S k c \<longleftrightarrow>
     c \<in> S \<and> (if \<exists>t \<in> S. k \<le> t then k \<le> c \<and> (\<forall>t \<in> S. k \<le> t \<longrightarrow> c \<le> t)
              else \<forall>t \<in> S. c \<le> t)"

text \<open>
  The entry that follows \<open>s\<close> on the ring: the first entry above \<open>s\<close>, and the first
  entry of all when there is none.
\<close>

definition next_hash :: "int64 list \<Rightarrow> int64 \<Rightarrow> int64" where
  "next_hash xs s = clockwise xs (s + 1)"

text \<open>The ring of the demo program: \<^verbatim>\<open>node-1\<close>, \<^verbatim>\<open>node-2\<close> and \<^verbatim>\<open>node-3\<close> added to a
  ring with the default configuration.\<close>

definition demo_ring :: HashRing where
  "demo_ring =
     ring (AddNode (ring (AddNode (ring (AddNode (HashRingInit [])
       (CacheNode 1 ''node-1''))) (CacheNode 2 ''node-2''))) (CacheNode 3 ''node-3''))"

text \<open>An \<^verbatim>\<open>int64\<close> value read as the \<^verbatim>\<open>uint64\<close> with the same bits.\<close>

definition as_unsigned :: "int \<Rightarrow> int" where
  "as_unsigned s = (if 0 \<le> s then s else s + 2 ^ 64)"

section \<open>The ordered search\<close>

lemma search_loop_stop: "\<not> i < j \<Longrightarrow> search_loop f i j = i"
  by (subst search_loop.simps) simp

lemma search_loop_right:
  "i < j \<Longrightarrow> \<not> f ((i + j) div 2) \<Longrightarrow>
   search_loop f i j = search_loop f ((i + j) div 2 + 1) j"
  by (subst search_loop.simps) (simp add: Let_def)

lemma search_loop_left:
  "i < j \<Longrightarrow> f ((i + j) div 2) \<Longrightarrow>
   search_loop f i j = search_loop f i ((i + j) div 2)"
  by (subst search_loop.simps) (simp add: Let_def)

text \<open>The loop stays between its bounds, whatever the predicate.\<close>

lemma search_loop_bounds:
  "i \<le> j \<Longrightarrow> i \<le> search_loop f i j \<and> search_loop f i j \<le> j"
proof (induction "j - i" arbitrary: i j rule: less_induct)
  case less
  show ?case
  proof (cases "i < j")
    case False
    then show ?thesis using less.prems by (simp add: search_loop_stop)
  next
    case True
    define h where "h = (i + j) div 2"
    from True have hb: "i \<le> h" "h < j" by (auto simp: h_def)
    show ?thesis
    proof (cases "f h")
      case True
      have "h - i < j - i" using hb by simp
      then have "i \<le> search_loop f i h \<and> search_loop f i h \<le> h"
        by (intro less.hyps hb(1))
      moreover have "search_loop f i j = search_loop f i h"
        using search_loop_left[OF \<open>i < j\<close>] True by (simp add: h_def)
      ultimately show ?thesis using hb by simp
    next
      case False
      have "j - (h + 1) < j - i" "h + 1 \<le> j" using hb by simp_all
      then have "h + 1 \<le> search_loop f (h + 1) j \<and> search_loop f (h + 1) j \<le> j"
        by (intro less.hyps)
      moreover have "search_loop f i j = search_loop f (h + 1) j"
        using search_loop_right[OF \<open>i < j\<close>] False by (simp add: h_def)
      ultimately show ?thesis using hb by simp
    qed
  qed
qed

text \<open>
  On a predicate that, once true, stays true up to \<open>n\<close>, the loop finds the least
  position where it holds.
\<close>

lemma search_loop_least:
  assumes "\<forall>k<i. \<not> f k" and "\<forall>k. j \<le> k \<and> k < n \<longrightarrow> f k" and "i \<le> j" and "j \<le> n"
    and "\<forall>a b. a \<le> b \<and> b < n \<and> f a \<longrightarrow> f b"
  shows "search_loop f i j \<le> n \<and> (\<forall>k < search_loop f i j. \<not> f k)
       \<and> (\<forall>k. search_loop f i j \<le> k \<and> k < n \<longrightarrow> f k)"
  using assms
proof (induction "j - i" arbitrary: i j rule: less_induct)
  case less
  show ?case
  proof (cases "i < j")
    case False
    with less.prems have "i = j" by simp
    with less.prems show ?thesis by (simp add: search_loop_stop)
  next
    case True
    define h where "h = (i + j) div 2"
    from True have hb: "i \<le> h" "h < j" by (auto simp: h_def)
    show ?thesis
    proof (cases "f h")
      case True
      have a: "\<forall>k. h \<le> k \<and> k < n \<longrightarrow> f k"
        using True less.prems(5) by blast
      have "h - i < j - i" using hb by simp
      moreover have "h \<le> n" using hb less.prems(4) by simp
      ultimately have "search_loop f i h \<le> n \<and> (\<forall>k < search_loop f i h. \<not> f k)
       \<and> (\<forall>k. search_loop f i h \<le> k \<and> k < n \<longrightarrow> f k)"
        by (intro less.hyps less.prems(1,5) a hb(1))
      moreover have "search_loop f i j = search_loop f i h"
        using search_loop_left[OF \<open>i < j\<close>] True by (simp add: h_def)
      ultimately show ?thesis by simp
    next
      case False
      have a: "\<forall>k<h + 1. \<not> f k"
      proof (intro allI impI)
        fix k assume "k < h + 1"
        then have "k \<le> h" by simp
        moreover have "h < n" using hb less.prems(4) by simp
        ultimately show "\<not> f k" using False less.prems(5) by blast
      qed
      have "j - (h + 1) < j - i" using hb by simp
      moreover have "h + 1 \<le> j" using hb by simp
      ultimately have "search_loop f (h + 1) j \<le> n \<and> (\<forall>k < search_loop f (h + 1) j. \<not> f k)
       \<and> (\<forall>k. search_loop f (h + 1) j \<le> k \<and> k < n \<longrightarrow> f k)"
        by (intro less.hyps less.prems(2,4,5) a)
      moreover have "search_loop f i j = search_loop f (h + 1) j"
        using search_loop_right[OF \<open>i < j\<close>] False by (simp add: h_def)
      ultimately show ?thesis by simp
    qed
  qed
qed

text \<open>On a sorted sequence the search counts the entries below the key.\<close>

lemma sort_Search_sorted:
  assumes "sorted xs"
  shows "sort_Search (length xs) (\<lambda>i. xs ! i \<ge> (key::int))
           = length (filter (\<lambda>x. x < key) xs)"
proof -
  define f where "f = (\<lambda>i. xs ! i \<ge> key)"
  define n where "n = length xs"
  define r where "r = search_loop f 0 n"
  have mono: "\<forall>a b. a \<le> b \<and> b < n \<and> f a \<longrightarrow> f b"
  proof (intro allI impI)
    fix a b assume h: "a \<le> b \<and> b < n \<and> f a"
    then have "xs ! a \<le> xs ! b" using assms by (simp add: sorted_iff_nth_mono n_def)
    with h show "f b" by (simp add: f_def)
  qed
  have r: "r \<le> n \<and> (\<forall>k < r. \<not> f k) \<and> (\<forall>k. r \<le> k \<and> k < n \<longrightarrow> f k)"
    unfolding r_def by (rule search_loop_least[OF _ _ _ _ mono]) auto
  have lo: "\<forall>x \<in> set (take r xs). x < key"
  proof
    fix x assume "x \<in> set (take r xs)"
    then obtain i where "i < r" "x = xs ! i"
      using r by (auto simp: in_set_conv_nth n_def)
    with r show "x < key" by (auto simp: f_def)
  qed
  have hi: "\<forall>x \<in> set (drop r xs). \<not> x < key"
  proof
    fix x assume "x \<in> set (drop r xs)"
    then obtain i where i: "i < length (drop r xs)" "x = drop r xs ! i"
      by (auto simp: in_set_conv_nth)
    then have "x = xs ! (r + i)" "r + i < n" using r by (auto simp: n_def)
    moreover have "r \<le> r + i" by simp
    ultimately have "f (r + i)" using r by blast
    then show "\<not> x < key" using \<open>x = xs ! (r + i)\<close> by (simp add: f_def)
  qed
  have "filter (\<lambda>x. x < key) xs = filter (\<lambda>x. x < key) (take r xs @ drop r xs)"
    by simp
  also have "\<dots> = filter (\<lambda>x. x < key) (take r xs) @ filter (\<lambda>x. x < key) (drop r xs)"
    by (rule filter_append)
  also have "filter (\<lambda>x. x < key) (take r xs) = take r xs"
    using lo by (simp add: filter_id_conv)
  also have "filter (\<lambda>x. x < key) (drop r xs) = []"
    using hi by (simp add: filter_empty_conv)
  finally have "filter (\<lambda>x. x < key) xs = take r xs" by simp
  then have "length (filter (\<lambda>x. x < key) xs) = r" using r by (simp add: n_def)
  then show ?thesis by (simp add: sort_Search_def r_def f_def n_def)
qed

lemma sorted_split_at_key:
  "sorted xs \<Longrightarrow> filter (\<lambda>x. x < key) xs @ filter (\<lambda>x. (key::int) \<le> x) xs = xs"
proof (induction xs)
  case Nil
  then show ?case by simp
next
  case (Cons x xs)
  show ?case
  proof (cases "x < key")
    case True
    with Cons show ?thesis by simp
  next
    case False
    with Cons.prems have "\<forall>y \<in> set xs. \<not> y < key" by auto
    then have "filter (\<lambda>x. x < key) xs = []" "filter (\<lambda>x. key \<le> x) xs = xs"
      by (auto simp: filter_empty_conv filter_id_conv)
    with False show ?thesis by simp
  qed
qed

lemma binarySearch_empty:
  "sortedKeyOfNodes r = [] \<Longrightarrow> binarySearch r key = Inl (Sentinel ErrNoConnectedNodes)"
  by (simp add: binarySearch_def)

lemma binarySearch_in_range:
  assumes "sortedKeyOfNodes r \<noteq> []"
  shows "\<exists>i. binarySearch r key = Inr i \<and> i < length (sortedKeyOfNodes r)"
proof -
  have "sort_Search (length (sortedKeyOfNodes r)) (\<lambda>i. sortedKeyOfNodes r ! i \<ge> key)
          \<le> length (sortedKeyOfNodes r)"
    using search_loop_bounds[of 0 "length (sortedKeyOfNodes r)"] by (simp add: sort_Search_def)
  with assms show ?thesis by (auto simp: binarySearch_def Let_def)
qed

lemma binarySearch_clockwise:
  assumes "sorted (sortedKeyOfNodes r)" and "sortedKeyOfNodes r \<noteq> []"
  shows "\<exists>i. binarySearch r key = Inr i \<and> i < length (sortedKeyOfNodes r)
             \<and> sortedKeyOfNodes r ! i = clockwise (sortedKeyOfNodes r) key
             \<and> i = (if filter (\<lambda>x. key \<le> x) (sortedKeyOfNodes r) = [] then 0
                    else length (filter (\<lambda>x. x < key) (sortedKeyOfNodes r)))"
proof -
  define xs where "xs = sortedKeyOfNodes r"
  define lo where "lo = filter (\<lambda>x. x < key) xs"
  define hi where "hi = filter (\<lambda>x. key \<le> x) xs"
  have split: "lo @ hi = xs" using assms(1) by (simp add: lo_def hi_def xs_def sorted_split_at_key)
  have idx: "sort_Search (length xs) (\<lambda>i. xs ! i \<ge> key) = length lo"
    using assms(1) by (simp add: sort_Search_sorted xs_def lo_def)
  show ?thesis
  proof (cases hi)
    case Nil
    with split have "length lo = length xs" by simp
    moreover have "xs ! 0 = clockwise xs key"
      using Nil assms(2) by (cases xs) (simp_all add: clockwise_def hi_def xs_def)
    ultimately show ?thesis using idx assms(2) Nil
      by (simp add: binarySearch_def xs_def[symmetric] hi_def[symmetric])
  next
    case (Cons y ys)
    with split have len: "length lo < length xs" by (metis length_append length_Cons less_add_Suc1 add_Suc_right)
    have "xs ! length lo = (lo @ hi) ! length lo" using split by simp
    also have "\<dots> = y" using Cons by simp
    finally have "xs ! length lo = clockwise xs key"
      using Cons by (simp add: clockwise_def hi_def[symmetric])
    moreover have "xs \<noteq> []" using len by auto
    ultimately show ?thesis using idx len Cons
      by (simp add: binarySearch_def xs_def[symmetric] hi_def[symmetric] lo_def[symmetric])
  qed
qed

lemma clockwise_member:
  assumes "sorted xs" and "a \<in> set xs"
  shows "clockwise xs a = a"
proof -
  define hi where "hi = filter (\<lambda>x. a \<le> x) xs"
  have "a \<in> set hi" using assms(2) by (simp add: hi_def)
  then obtain y ys where yy: "hi = y # ys" by (cases hi) auto
  have "sorted hi" using assms(1) unfolding hi_def by (rule sorted_wrt_filter)
  with yy \<open>a \<in> set hi\<close> have "y \<le> a" by auto
  moreover have "a \<le> y"
  proof -
    have "y \<in> set (filter (\<lambda>x. a \<le> x) xs)" using yy by (simp add: hi_def)
    then show ?thesis by simp
  qed
  ultimately show ?thesis using yy by (simp add: clockwise_def hi_def[symmetric])
qed

text \<open>What the clockwise successor is, in the order of the sequence.\<close>

lemma clockwise_least:
  assumes "sorted xs" and "xs \<noteq> []"
  shows "clockwise xs key \<in> set xs"
    and "\<exists>t \<in> set xs. key \<le> t \<Longrightarrow>
           key \<le> clockwise xs key \<and> (\<forall>t \<in> set xs. key \<le> t \<longrightarrow> clockwise xs key \<le> t)"
    and "\<not> (\<exists>t \<in> set xs. key \<le> t) \<Longrightarrow> \<forall>t \<in> set xs. clockwise xs key \<le> t"
proof -
  define hi where "hi = filter (\<lambda>x. key \<le> x) xs"
  have shi: "sorted hi" using assms(1) unfolding hi_def by (rule sorted_wrt_filter)
  obtain x xs' where xs: "xs = x # xs'" using assms(2) by (cases xs) auto
  show "clockwise xs key \<in> set xs"
  proof (cases hi)
    case Nil
    then have "clockwise xs key = (case xs of x # xs' \<Rightarrow> x | [] \<Rightarrow> 0)"
      by (simp add: clockwise_def hi_def[symmetric])
    then show ?thesis using xs by simp
  next
    case (Cons y ys)
    then have "y \<in> set hi" by simp
    then have "y \<in> set xs" by (simp add: hi_def)
    then show ?thesis using Cons by (simp add: clockwise_def hi_def[symmetric])
  qed
  show "key \<le> clockwise xs key \<and> (\<forall>t \<in> set xs. key \<le> t \<longrightarrow> clockwise xs key \<le> t)"
    if "\<exists>t \<in> set xs. key \<le> t"
  proof -
    from that have "hi \<noteq> []" by (auto simp: hi_def filter_empty_conv)
    then obtain y ys where Cons: "hi = y # ys" by (cases hi) auto
    then have c: "clockwise xs key = y" by (simp add: clockwise_def hi_def[symmetric])
    have "y \<in> set hi" using Cons by simp
    then have "key \<le> y" by (simp add: hi_def)
    moreover have "\<forall>t \<in> set xs. key \<le> t \<longrightarrow> y \<le> t"
    proof (intro ballI impI)
      fix t assume "t \<in> set xs" "key \<le> t"
      then have "t \<in> set hi" by (simp add: hi_def)
      with shi Cons show "y \<le> t" by auto
    qed
    ultimately show ?thesis using c by simp
  qed
  show "\<forall>t \<in> set xs. clockwise xs key \<le> t" if "\<not> (\<exists>t \<in> set xs. key \<le> t)"
  proof -
    from that have "hi = []" by (auto simp: hi_def filter_empty_conv)
    then have "clockwise xs key = (case xs of x # xs' \<Rightarrow> x | [] \<Rightarrow> 0)"
      by (simp add: clockwise_def hi_def[symmetric])
    then have "clockwise xs key = x" using xs by simp
    then show ?thesis using assms(1) xs by auto
  qed
qed

section \<open>Conversions between the two integer types\<close>

lemma int64_sint: "- (2 ^ 63) \<le> sint (w :: uint64) \<and> sint w < 2 ^ 63"
  using sint_ge[of w] sint_lt[of w] by simp

lemma uint64_int64: "word_of_int (sint (w :: uint64)) = w"
  by simp

lemma int64_uint64:
  "- (2 ^ 63) \<le> s \<Longrightarrow> s < 2 ^ 63 \<Longrightarrow> sint (word_of_int s :: uint64) = s"
  by (simp add: sint_sbintrunc' signed_take_bit_int_eq_self)

lemma uint64_inj:
  "- (2 ^ 63) \<le> s \<Longrightarrow> s < 2 ^ 63 \<Longrightarrow> - (2 ^ 63) \<le> t \<Longrightarrow> t < 2 ^ 63 \<Longrightarrow>
   (word_of_int s :: uint64) = word_of_int t \<Longrightarrow> s = t"
  by (metis int64_uint64)

section \<open>The invariants are preserved\<close>

lemma drop_index:
  assumes "distinct xs" and "i < length xs"
  shows "take i xs @ drop (i + 1) xs = remove1 (xs ! i) xs"
proof -
  have "xs ! i \<notin> set (take i xs)"
    using assms by (metis id_take_nth_drop distinct_append distinct.simps(2) Un_iff set_append list.set_intros(1) disjoint_iff)
  moreover have "remove1 (xs ! i) xs = remove1 (xs ! i) (take i xs @ xs ! i # drop (Suc i) xs)"
    using id_take_nth_drop[OF assms(2)] by simp
  ultimately show ?thesis by (simp add: remove1_append)
qed

lemma generateHash_config:
  "config r' = config r \<Longrightarrow> generateHash r' key = generateHash r key"
  by (simp add: generateHash_def)

lemma ring_inv_init: "ring_inv (HashRingInit opts)"
  by (simp add: ring_inv_def int64_values_def I1_def I2_def keyed_by_hash_def HashRingInit_def)

lemma AddNode_config: "config (ring (AddNode r node)) = config r"
  by (simp add: AddNode_def split: option.splits)

lemma RemoveNode_config: "config (ring (RemoveNode r node)) = config r"
  by (simp add: RemoveNode_def Let_def split: option.splits sum.splits)

lemma GetNode_ring: "ring (GetNode r key) = r"
  by (simp add: GetNode_def Let_def split: option.splits sum.splits)

lemma GetNode_hashring_ring: "ring (GetNode_hashring r key) = r"
  by (simp add: GetNode_hashring_def Let_def split: option.splits sum.splits)

text \<open>A stored hash has its \<^verbatim>\<open>int64\<close> image in the sequence.\<close>

lemma stored_in_sequence:
  assumes "int64_values r" and "I1 r" and "nodes r (Uint64 h) = Some n"
  shows "sint h \<in> set (sortedKeyOfNodes r)"
proof -
  from assms(2,3) have "Uint64 h \<in> (\<lambda>s. Uint64 (word_of_int s)) ` set (sortedKeyOfNodes r)"
    unfolding I1_def by (metis domI)
  then obtain s where s: "s \<in> set (sortedKeyOfNodes r)" "h = word_of_int s" by auto
  with assms(1) have "sint h = s" by (simp add: int64_values_def int64_uint64)
  with s show ?thesis by simp
qed

lemma absent_from_sequence:
  assumes "I1 r" and "nodes r (Uint64 h) = None"
  shows "sint h \<notin> set (sortedKeyOfNodes r)"
proof
  assume "sint h \<in> set (sortedKeyOfNodes r)"
  then have "Uint64 (word_of_int (sint h)) \<in> dom (nodes r)"
    using assms(1) unfolding I1_def by blast
  with assms(2) show False by (simp add: dom_def)
qed

lemma AddNode_success:
  assumes "generateHash r (GetIdentifier node) = Some h" and "nodes r (Uint64 h) = None"
  shows "ring (AddNode r node) =
           r\<lparr>nodes := (nodes r)(Uint64 h \<mapsto> node),
             sortedKeyOfNodes := slices_Sort (sortedKeyOfNodes r @ [sint h])\<rparr>"
    and "result (AddNode r node) = None"
  using assms by (simp_all add: AddNode_def)

lemma AddNode_failure:
  assumes "generateHash r (GetIdentifier node) = None \<or>
           (\<exists>h e. generateHash r (GetIdentifier node) = Some h \<and> nodes r (Uint64 h) = Some e)"
  shows "ring (AddNode r node) = r" and "result (AddNode r node) \<noteq> None"
  using assms by (auto simp: AddNode_def)

lemma ring_inv_AddNode:
  assumes "ring_inv r"
  shows "ring_inv (ring (AddNode r node))"
proof (cases "generateHash r (GetIdentifier node)")
  case None
  then show ?thesis using assms by (simp add: AddNode_failure)
next
  case (Some h)
  show ?thesis
  proof (cases "nodes r (Uint64 h)")
    case (Some e)
    with \<open>generateHash r (GetIdentifier node) = Some h\<close> have "ring (AddNode r node) = r"
      by (intro AddNode_failure) auto
    then show ?thesis using assms by simp
  next
    case None
    define r' where "r' = ring (AddNode r node)"
    have r': "r' = r\<lparr>nodes := (nodes r)(Uint64 h \<mapsto> node),
             sortedKeyOfNodes := slices_Sort (sortedKeyOfNodes r @ [sint h])\<rparr>"
      unfolding r'_def using Some None by (rule AddNode_success)
    from assms have inv: "int64_values r" "I1 r" "I2 r" "keyed_by_hash r"
      by (simp_all add: ring_inv_def)
    have fresh: "sint h \<notin> set (sortedKeyOfNodes r)"
      using inv(2) None by (rule absent_from_sequence)
    have set': "set (sortedKeyOfNodes r') = insert (sint h) (set (sortedKeyOfNodes r))"
      by (simp add: r' slices_Sort_def)
    have "int64_values r'"
      using inv(1) int64_sint[of h] by (simp add: int64_values_def set')
    moreover have "I1 r'"
      using inv(2) by (simp add: I1_def set') (simp add: r')
    moreover have "I2 r'"
      using inv(3) fresh by (simp add: I2_def r' slices_Sort_def)
    moreover have "keyed_by_hash r'"
    proof -
      have "generateHash r' = generateHash r"
        by (rule ext) (simp add: generateHash_def r')
      then show ?thesis
        using inv(4) Some by (simp add: keyed_by_hash_def) (simp add: r')
    qed
    ultimately show ?thesis by (simp add: ring_inv_def r'_def)
  qed
qed

lemma RemoveNode_failure:
  assumes "generateHash r (GetIdentifier node) = None \<or>
           (\<exists>h. generateHash r (GetIdentifier node) = Some h \<and> nodes r (Uint64 h) = None)"
  shows "ring (RemoveNode r node) = r" and "result (RemoveNode r node) \<noteq> None"
  using assms by (auto simp: RemoveNode_def)

lemma RemoveNode_success:
  assumes "int64_values r" and "I1 r" and "I2 r"
    and "generateHash r (GetIdentifier node) = Some h" and "nodes r (Uint64 h) = Some d"
  shows "ring (RemoveNode r node) =
           r\<lparr>nodes := (nodes r)(Uint64 h := None),
             sortedKeyOfNodes := remove1 (sint h) (sortedKeyOfNodes r)\<rparr>"
    and "result (RemoveNode r node) = None"
proof -
  define r1 where "r1 = r\<lparr>nodes := (nodes r)(Uint64 h := None)\<rparr>"
  have seq1: "sortedKeyOfNodes r1 = sortedKeyOfNodes r" by (simp add: r1_def)
  have mem: "sint h \<in> set (sortedKeyOfNodes r)"
    using assms(1,2,5) by (rule stored_in_sequence)
  then have ne: "sortedKeyOfNodes r1 \<noteq> []" using seq1 by auto
  have srt: "sorted (sortedKeyOfNodes r1)" using assms(3) seq1 by (simp add: I2_def)
  from binarySearch_clockwise[OF srt ne, of "sint h"]
  obtain i where i: "binarySearch r1 (sint h) = Inr i" "i < length (sortedKeyOfNodes r)"
    "sortedKeyOfNodes r ! i = clockwise (sortedKeyOfNodes r) (sint h)"
    using seq1 by auto
  have "sortedKeyOfNodes r ! i = sint h"
    using i(3) srt mem seq1 by (simp add: clockwise_member)
  then have cut: "take i (sortedKeyOfNodes r) @ drop (i + 1) (sortedKeyOfNodes r)
          = remove1 (sint h) (sortedKeyOfNodes r)"
    using drop_index[OF _ i(2)] assms(3) by (simp add: I2_def)
  show "ring (RemoveNode r node) =
           r\<lparr>nodes := (nodes r)(Uint64 h := None),
             sortedKeyOfNodes := remove1 (sint h) (sortedKeyOfNodes r)\<rparr>"
    using assms(4,5) i(1) cut seq1
    by (simp add: RemoveNode_def r1_def[symmetric])
  show "result (RemoveNode r node) = None"
    using assms(4,5) i(1) by (simp add: RemoveNode_def r1_def[symmetric])
qed

lemma ring_inv_RemoveNode:
  assumes "ring_inv r"
  shows "ring_inv (ring (RemoveNode r node))"
proof (cases "generateHash r (GetIdentifier node)")
  case None
  then show ?thesis using assms by (simp add: RemoveNode_failure)
next
  case (Some h)
  from assms have inv: "int64_values r" "I1 r" "I2 r" "keyed_by_hash r"
    by (simp_all add: ring_inv_def)
  show ?thesis
  proof (cases "nodes r (Uint64 h)")
    case None
    with Some have "ring (RemoveNode r node) = r"
      by (intro RemoveNode_failure) auto
    then show ?thesis using assms by simp
  next
    case (Some d)
    define r' where "r' = ring (RemoveNode r node)"
    have r': "r' = r\<lparr>nodes := (nodes r)(Uint64 h := None),
             sortedKeyOfNodes := remove1 (sint h) (sortedKeyOfNodes r)\<rparr>"
      unfolding r'_def
      using inv(1,2,3) \<open>generateHash r (GetIdentifier node) = Some h\<close> Some
      by (rule RemoveNode_success)
    have set': "set (sortedKeyOfNodes r') = set (sortedKeyOfNodes r) - {sint h}"
      using inv(3) by (simp add: r' I2_def)
    have "int64_values r'"
      using inv(1) by (simp add: int64_values_def set')
    moreover have "I1 r'"
    proof -
      have "dom (nodes r') = dom (nodes r) - {Uint64 h}" by (simp add: r')
      also have "\<dots> = (\<lambda>s. Uint64 (word_of_int s)) ` set (sortedKeyOfNodes r) - {Uint64 h}"
        using inv(2) by (simp add: I1_def)
      also have "\<dots> = (\<lambda>s. Uint64 (word_of_int s)) ` (set (sortedKeyOfNodes r) - {sint h})"
      proof (intro set_eqI iffI)
        fix k assume "k \<in> (\<lambda>s. Uint64 (word_of_int s)) ` set (sortedKeyOfNodes r) - {Uint64 h}"
        then obtain s where s: "s \<in> set (sortedKeyOfNodes r)" "k = Uint64 (word_of_int s)"
          "k \<noteq> Uint64 h" by auto
        then have "s \<noteq> sint h" by auto
        with s show "k \<in> (\<lambda>s. Uint64 (word_of_int s)) ` (set (sortedKeyOfNodes r) - {sint h})"
          by auto
      next
        fix k assume "k \<in> (\<lambda>s. Uint64 (word_of_int s)) ` (set (sortedKeyOfNodes r) - {sint h})"
        then obtain s where s: "s \<in> set (sortedKeyOfNodes r)" "k = Uint64 (word_of_int s)"
          "s \<noteq> sint h" by auto
        from s(1) inv(1) have "sint (word_of_int s :: uint64) = s"
          by (simp add: int64_values_def int64_uint64)
        with s(3) have "(word_of_int s :: uint64) \<noteq> h" by auto
        with s show "k \<in> (\<lambda>s. Uint64 (word_of_int s)) ` set (sortedKeyOfNodes r) - {Uint64 h}"
          by auto
      qed
      finally show ?thesis by (simp add: I1_def set')
    qed
    moreover have "I2 r'"
      using inv(3) by (simp add: I2_def r' sorted_remove1)
    moreover have "keyed_by_hash r'"
    proof -
      have "generateHash r' = generateHash r"
        by (rule ext) (simp add: generateHash_def r')
      then show ?thesis
        using inv(4) by (simp add: keyed_by_hash_def) (simp add: r')
    qed
    ultimately show ?thesis by (simp add: ring_inv_def r'_def)
  qed
qed

lemma reaches_ring_inv: "reaches r0 r \<Longrightarrow> ring_inv r0 \<Longrightarrow> ring_inv r"
  by (induction rule: reaches.induct)
     (simp_all add: ring_inv_AddNode ring_inv_RemoveNode GetNode_ring GetNode_hashring_ring)

lemma reachable_ring_inv: "reachable r \<Longrightarrow> ring_inv r"
  unfolding reachable_def using reaches_ring_inv ring_inv_init by blast

lemma reaches_config: "reaches r0 r \<Longrightarrow> config r = config r0"
  by (induction rule: reaches.induct)
     (simp_all add: AddNode_config RemoveNode_config GetNode_ring GetNode_hashring_ring)

lemma reachable_init: "reachable (HashRingInit opts)"
  unfolding reachable_def by (blast intro: reaches.start)

lemma reachable_AddNode: "reachable r \<Longrightarrow> reachable (ring (AddNode r node))"
  unfolding reachable_def by (blast intro: reaches.add)

lemma reachable_RemoveNode: "reachable r \<Longrightarrow> reachable (ring (RemoveNode r node))"
  unfolding reachable_def by (blast intro: reaches.remove)

text \<open>
  Off the invariant the removal is not all-or-nothing: when the mapping holds a hash that
  the sequence lacks, \<^verbatim>\<open>LoadAndDelete\<close> has removed the entry before the ordered search
  reports the empty sequence. No reachable ring is in that state.
\<close>

lemma RemoveNode_off_invariant:
  assumes "generateHash r (GetIdentifier node) = Some h" and "nodes r (Uint64 h) = Some n"
    and "sortedKeyOfNodes r = []"
  shows "result (RemoveNode r node) = Some (Sentinel ErrNoConnectedNodes)"
    and "nodes (ring (RemoveNode r node)) (Uint64 h) = None"
    and "\<not> reachable r"
proof -
  show "result (RemoveNode r node) = Some (Sentinel ErrNoConnectedNodes)"
    using assms by (simp add: RemoveNode_def binarySearch_def)
  show "nodes (ring (RemoveNode r node)) (Uint64 h) = None"
    using assms by (simp add: RemoveNode_def binarySearch_def)
  show "\<not> reachable r"
  proof
    assume "reachable r"
    then have "int64_values r" "I1 r" using reachable_ring_inv by (simp_all add: ring_inv_def)
    then have "sint h \<in> set (sortedKeyOfNodes r)" using assms(2) by (rule stored_in_sequence)
    with assms(3) show False by simp
  qed
qed

section \<open>The two lookups\<close>

text \<open>
  The lookup of package \<^verbatim>\<open>consistenthash\<close> asks the mapping for an \<^verbatim>\<open>int64\<close> key; the
  mapping holds \<^verbatim>\<open>uint64\<close> keys only, so on a ring with nodes the lookup finds nothing.
\<close>

lemma GetNode_misses:
  assumes "I1 r" and "sortedKeyOfNodes r \<noteq> []" and "generateHash r key = Some h"
  shows "result (GetNode r key) = Inl (Errorf ErrNodeNotFound (''no node found for key '' @ key))"
proof -
  obtain i where i: "binarySearch r (sint h) = Inr i"
    using binarySearch_in_range[OF assms(2)] by blast
  have "Int64 s \<notin> dom (nodes r)" for s
    using assms(1) unfolding I1_def by auto
  then have "nodes r (Int64 (sortedKeyOfNodes r ! i)) = None" by blast
  then show ?thesis using assms(3) i by (simp add: GetNode_def)
qed

text \<open>
  The lookup of package \<^verbatim>\<open>hashring\<close> converts the selected hash back to \<^verbatim>\<open>uint64\<close>:
  when every hash of the sequence is a key of the mapping, it finds the node stored there.
\<close>

lemma GetNode_hashring_finds:
  assumes "\<forall>s \<in> set (sortedKeyOfNodes r). Uint64 (word_of_int s) \<in> dom (nodes r)"
    and "binarySearch r (sint h) = Inr i" and "generateHash r key = Some h"
  shows "\<exists>n. nodes r (Uint64 (word_of_int (sortedKeyOfNodes r ! i))) = Some n
           \<and> result (GetNode_hashring r key) = Inr n"
proof -
  have ne: "sortedKeyOfNodes r \<noteq> []"
    using assms(2) by (auto simp: binarySearch_def)
  from binarySearch_in_range[OF ne, of "sint h"] assms(2)
  have "i < length (sortedKeyOfNodes r)" by simp
  then have "sortedKeyOfNodes r ! i \<in> set (sortedKeyOfNodes r)" by simp
  with assms(1) obtain n where "nodes r (Uint64 (word_of_int (sortedKeyOfNodes r ! i))) = Some n"
    by blast
  then show ?thesis using assms(2,3) by (simp add: GetNode_hashring_def)
qed

lemma GetNode_hashring_never_NodeNotFound:
  assumes "\<forall>s \<in> set (sortedKeyOfNodes r). Uint64 (word_of_int s) \<in> dom (nodes r)"
  shows "\<forall>ctx. result (GetNode_hashring r key) \<noteq> Inl (Errorf ErrNodeNotFound ctx)"
proof (cases "generateHash r key")
  case None
  then show ?thesis by (simp add: GetNode_hashring_def)
next
  case (Some h)
  show ?thesis
  proof (cases "binarySearch r (sint h)")
    case (Inl e)
    then have "e = Sentinel ErrNoConnectedNodes" by (auto simp: binarySearch_def Let_def split: if_splits)
    with Inl Some show ?thesis by (simp add: GetNode_hashring_def)
  next
    case (Inr i)
    from GetNode_hashring_finds[OF assms Inr Some] show ?thesis by auto
  qed
qed

text \<open>
  On a ring with nodes, \<^verbatim>\<open>GetNode\<close> of package \<^verbatim>\<open>hashring\<close> returns the node stored
  under the clockwise successor of the key's hash: the smallest stored hash that is not
  below it, and the smallest of all when every stored hash is below it.
\<close>

lemma GetNode_hashring_successor:
  assumes "ring_inv r" and "sortedKeyOfNodes r \<noteq> []" and "generateHash r key = Some h"
  shows "\<exists>s n. s \<in> set (sortedKeyOfNodes r)
            \<and> nodes r (Uint64 (word_of_int s)) = Some n
            \<and> result (GetNode_hashring r key) = Inr n
            \<and> s = clockwise (sortedKeyOfNodes r) (sint h)
            \<and> (if \<exists>t \<in> set (sortedKeyOfNodes r). sint h \<le> t
               then sint h \<le> s \<and> (\<forall>t \<in> set (sortedKeyOfNodes r). sint h \<le> t \<longrightarrow> s \<le> t)
               else \<forall>t \<in> set (sortedKeyOfNodes r). s \<le> t)"
proof -
  from assms(1) have inv: "I1 r" "sorted (sortedKeyOfNodes r)"
    by (simp_all add: ring_inv_def I2_def)
  from binarySearch_clockwise[OF inv(2) assms(2), of "sint h"]
  obtain i where i: "binarySearch r (sint h) = Inr i"
    "sortedKeyOfNodes r ! i = clockwise (sortedKeyOfNodes r) (sint h)" by blast
  have sub: "\<forall>s \<in> set (sortedKeyOfNodes r). Uint64 (word_of_int s) \<in> dom (nodes r)"
    using inv(1) by (simp add: I1_def)
  from GetNode_hashring_finds[OF sub i(1) assms(3)] i(2)
  obtain n where n: "nodes r (Uint64 (word_of_int (clockwise (sortedKeyOfNodes r) (sint h)))) = Some n"
    "result (GetNode_hashring r key) = Inr n" by auto
  from clockwise_least[OF inv(2) assms(2), of "sint h"] n show ?thesis
    by (cases "\<exists>t \<in> set (sortedKeyOfNodes r). sint h \<le> t") auto
qed

text \<open>The lookup of package \<^verbatim>\<open>hashring\<close>, read off a sorted sequence.\<close>

lemma GetNode_hashring_at:
  assumes "sorted (sortedKeyOfNodes r)" and "sortedKeyOfNodes r \<noteq> []"
    and "generateHash r key = Some h"
    and "nodes r (Uint64 (word_of_int (clockwise (sortedKeyOfNodes r) (sint h)))) = Some n"
  shows "result (GetNode_hashring r key) = Inr n"
proof -
  from binarySearch_clockwise[OF assms(1,2), of "sint h"]
  obtain i where i: "binarySearch r (sint h) = Inr i"
    "sortedKeyOfNodes r ! i = clockwise (sortedKeyOfNodes r) (sint h)" by blast
  with assms(3,4) show ?thesis by (simp add: GetNode_hashring_def)
qed

lemma GetNode_constant_on_nodes:
  assumes "I1 r" and "I1 r'" and "sortedKeyOfNodes r \<noteq> []" and "sortedKeyOfNodes r' \<noteq> []"
    and "config r' = config r"
  shows "result (GetNode r' key) = result (GetNode r key)"
proof (cases "generateHash r key")
  case None
  then have "generateHash r' key = None" by (simp add: generateHash_config[OF assms(5)])
  with None show ?thesis by (simp add: GetNode_def)
next
  case (Some h)
  then have h': "generateHash r' key = Some h" by (simp add: generateHash_config[OF assms(5)])
  show ?thesis
    unfolding GetNode_misses[OF assms(1,3) Some] GetNode_misses[OF assms(2,4) h'] by (rule refl)
qed


section \<open>Removing one hash from the sequence\<close>

lemma is_successor_unique:
  "is_successor S k c \<Longrightarrow> is_successor S k d \<Longrightarrow> c = d"
  unfolding is_successor_def by (auto split: if_splits intro: antisym)

lemma clockwise_is_successor:
  "sorted xs \<Longrightarrow> xs \<noteq> [] \<Longrightarrow> is_successor (set xs) k (clockwise xs k)"
  unfolding is_successor_def using clockwise_least[of xs k] by auto

lemma is_successor_other:
  assumes "is_successor S k c" and "c \<noteq> a"
  shows "is_successor (S - {a}) k c"
proof -
  show ?thesis
  proof (cases "\<exists>t \<in> S. k \<le> t")
    case True
    with assms(1) have c: "c \<in> S" "k \<le> c" "\<forall>t \<in> S. k \<le> t \<longrightarrow> c \<le> t"
      by (auto simp: is_successor_def)
    with assms(2) have "\<exists>t \<in> S - {a}. k \<le> t" by blast
    with c assms(2) show ?thesis by (auto simp: is_successor_def)
  next
    case False
    with assms(1) have c: "c \<in> S" "\<forall>t \<in> S. c \<le> t"
      by (auto simp: is_successor_def)
    from False have "\<not> (\<exists>t \<in> S - {a}. k \<le> t)" by blast
    with c assms(2) show ?thesis by (auto simp: is_successor_def)
  qed
qed

lemma is_successor_removed:
  assumes "is_successor S k a" and "is_successor S (a + 1) d" and "d \<noteq> a"
  shows "is_successor (S - {a}) k d"
proof -
  from assms(2,3) have d: "d \<in> S - {a}" by (simp add: is_successor_def)
  show ?thesis
  proof (cases "\<exists>t \<in> S - {a}. k \<le> t")
    case True
    then obtain t where t: "t \<in> S" "t \<noteq> a" "k \<le> t" by blast
    with assms(1) have a: "k \<le> a" "\<forall>t \<in> S. k \<le> t \<longrightarrow> a \<le> t"
      by (auto simp: is_successor_def split: if_splits)
    with t have "a + 1 \<le> t" by force
    with t(1) assms(2) have dd: "a + 1 \<le> d" "\<forall>t \<in> S. a + 1 \<le> t \<longrightarrow> d \<le> t"
      by (auto simp: is_successor_def split: if_splits)
    have "k \<le> d" using a(1) dd(1) by simp
    moreover have "\<forall>u \<in> S - {a}. k \<le> u \<longrightarrow> d \<le> u"
    proof (intro ballI impI)
      fix u assume u: "u \<in> S - {a}" "k \<le> u"
      with a(2) have "a \<le> u" "u \<noteq> a" by auto
      then have "a + 1 \<le> u" by simp
      with dd(2) u(1) show "d \<le> u" by blast
    qed
    ultimately show ?thesis using d True by (simp add: is_successor_def)
  next
    case False
    have "\<forall>u \<in> S - {a}. d \<le> u"
    proof (cases "\<exists>t \<in> S. a + 1 \<le> t")
      case True
      then have dd: "\<forall>t \<in> S. a + 1 \<le> t \<longrightarrow> d \<le> t"
        using assms(2) by (auto simp: is_successor_def split: if_splits)
      from True obtain t where t: "t \<in> S" "a + 1 \<le> t" by blast
      then have "t \<in> S - {a}" by auto
      with False have "\<not> k \<le> t" by blast
      with t have "\<not> k \<le> a" by simp
      then have "\<not> (\<exists>t \<in> S. k \<le> t)" using False by (metis Diff_iff singletonD)
      with assms(1) have "\<forall>t \<in> S. a \<le> t" by (auto simp: is_successor_def)
      then have "\<forall>u \<in> S - {a}. a + 1 \<le> u" by force
      with dd show ?thesis by blast
    next
      case False
      with assms(2) show ?thesis by (auto simp: is_successor_def)
    qed
    with d False show ?thesis by (simp add: is_successor_def)
  qed
qed

lemma is_successor_next_differs:
  assumes "is_successor S (a + 1) d" and "a \<in> S" and "b \<in> S" and "b \<noteq> a"
  shows "d \<noteq> a"
proof
  assume "d = a"
  with assms(1) have "\<not> (\<exists>t \<in> S. a + 1 \<le> t)" "\<forall>t \<in> S. a \<le> t"
    by (auto simp: is_successor_def split: if_splits)
  with assms(3,4) show False by force
qed

lemma clockwise_remove1:
  assumes "sorted xs" and "distinct xs" and "a \<in> set xs" and "2 \<le> length xs"
  shows "next_hash xs a \<in> set xs - {a}"
    and "clockwise (remove1 a xs) k
           = (if clockwise xs k = a then next_hash xs a else clockwise xs k)"
proof -
  have ne: "xs \<noteq> []" using assms(3) by auto
  have "length (remove1 a xs) = length xs - 1" using assms(3) by (simp add: length_remove1)
  with assms(4) have ne': "remove1 a xs \<noteq> []" by auto
  have s': "sorted (remove1 a xs)" using assms(1) by (rule sorted_remove1)
  have set': "set (remove1 a xs) = set xs - {a}" using assms(2) by simp
  from ne' set' obtain b where b: "b \<in> set xs" "b \<noteq> a"
    by (metis Diff_iff all_not_in_conv set_empty singletonI)
  have nx: "is_successor (set xs) (a + 1) (next_hash xs a)"
    unfolding next_hash_def using assms(1) ne by (rule clockwise_is_successor)
  then have nd: "next_hash xs a \<noteq> a"
    using assms(3) b by (rule is_successor_next_differs)
  from nx nd show "next_hash xs a \<in> set xs - {a}" by (simp add: is_successor_def)
  have c: "is_successor (set xs) k (clockwise xs k)"
    using assms(1) ne by (rule clockwise_is_successor)
  have c': "is_successor (set xs - {a}) k (clockwise (remove1 a xs) k)"
    using clockwise_is_successor[OF s' ne', of k] set' by simp
  show "clockwise (remove1 a xs) k
           = (if clockwise xs k = a then next_hash xs a else clockwise xs k)"
  proof (cases "clockwise xs k = a")
    case True
    with c have "is_successor (set xs) k a" by simp
    then have "is_successor (set xs - {a}) k (next_hash xs a)"
      using nx nd by (rule is_successor_removed)
    with c' True show ?thesis by (simp add: is_successor_unique)
  next
    case False
    with c have "is_successor (set xs - {a}) k (clockwise xs k)"
      by (rule is_successor_other)
    with c' False show ?thesis by (simp add: is_successor_unique)
  qed
qed

section \<open>The successor in the unsigned order\<close>

lemma as_unsigned_le:
  assumes "- (2 ^ 63) \<le> s" "s < 2 ^ 63" "- (2 ^ 63) \<le> t" "t < 2 ^ 63"
  shows "as_unsigned s \<le> as_unsigned t \<longleftrightarrow> (if 0 \<le> s then s \<le> t \<or> t < 0 else s \<le> t \<and> t < 0)"
  using assms by (auto simp: as_unsigned_def)

lemma is_successor_unsigned:
  assumes "is_successor S k c"
    and "\<forall>s \<in> S. - (2 ^ 63) \<le> s \<and> s < 2 ^ 63" and "- (2 ^ 63) \<le> k" and "k < 2 ^ 63"
  shows "is_successor (as_unsigned ` S) (as_unsigned k) (as_unsigned c)"
proof -
  have c: "c \<in> S" using assms(1) by (simp add: is_successor_def)
  have ge: "as_unsigned k \<le> as_unsigned s \<longleftrightarrow> (if 0 \<le> k then k \<le> s \<or> s < 0 else k \<le> s \<and> s < 0)"
    if "s \<in> S" for s
    using that assms(2,3,4) by (intro as_unsigned_le) auto
  have lec: "as_unsigned c \<le> as_unsigned s \<longleftrightarrow> (if 0 \<le> c then c \<le> s \<or> s < 0 else c \<le> s \<and> s < 0)"
    if "s \<in> S" for s
    using that c assms(2) by (intro as_unsigned_le) auto
  have goal: "(if \<exists>s \<in> S. as_unsigned k \<le> as_unsigned s
         then as_unsigned k \<le> as_unsigned c \<and> (\<forall>s \<in> S. as_unsigned k \<le> as_unsigned s \<longrightarrow> as_unsigned c \<le> as_unsigned s)
         else \<forall>s \<in> S. as_unsigned c \<le> as_unsigned s)"
  proof (cases "\<exists>t \<in> S. k \<le> t")
    case True
    with assms(1) have A: "k \<le> c" "\<forall>t \<in> S. k \<le> t \<longrightarrow> c \<le> t"
      by (auto simp: is_successor_def)
    show ?thesis
    proof (cases "0 \<le> k")
      case True
      then have "0 \<le> c" using A(1) by simp
      with True A c show ?thesis
        by (auto simp: ge lec)
    next
      case False
      show ?thesis
      proof (cases "0 \<le> c")
        case True
        have none: "\<forall>s \<in> S. \<not> (k \<le> s \<and> s < 0)"
          using A(2) True by force
        with True False A c show ?thesis
          by (auto simp: ge lec)
      next
        case c_neg: False
        with False A c show ?thesis
          by (auto simp: ge lec)
      qed
    qed
  next
    case False
    with assms(1) have B: "\<forall>t \<in> S. c \<le> t" "\<forall>t \<in> S. t < k"
      by (auto simp: is_successor_def)
    show ?thesis
    proof (cases "0 \<le> k")
      case True
      show ?thesis
      proof (cases "0 \<le> c")
        case c_pos: True
        with True B c show ?thesis
          by (auto simp: ge lec)
      next
        case c_neg: False
        with True B c show ?thesis
          by (auto simp: ge lec)
      qed
    next
      case False
      with B c show ?thesis
        by (auto simp: ge lec)
    qed
  qed
  have "as_unsigned c \<in> as_unsigned ` S" using c by simp
  with goal show ?thesis by (simp add: is_successor_def)
qed

lemma uint_of_int64:
  assumes "- (2 ^ 63) \<le> s" and "s < 2 ^ 63"
  shows "uint (word_of_int s :: uint64) = as_unsigned s"
proof -
  have "uint (word_of_int s :: uint64) = s mod 2 ^ 64"
    by (simp add: uint_word_of_int_eq take_bit_eq_mod)
  also have "\<dots> = as_unsigned s"
  proof (cases "0 \<le> s")
    case True
    with assms(2) show ?thesis by (simp add: as_unsigned_def)
  next
    case False
    then have "0 \<le> s + 2 ^ 64" "s + 2 ^ 64 < 2 ^ 64" using assms(1) by simp_all
    then have "(s + 2 ^ 64) mod 2 ^ 64 = s + 2 ^ 64" by (rule mod_pos_pos_trivial)
    moreover have "(s + 2 ^ 64) mod 2 ^ 64 = s mod 2 ^ 64" by simp
    ultimately show ?thesis using False by (simp add: as_unsigned_def)
  qed
  finally show ?thesis .
qed

text \<open>
  The same successor read in the unsigned order of the \<^verbatim>\<open>uint64\<close> keys of the mapping:
  the signed order of the sequence is a rotation of the unsigned order, and the
  wrap-around makes the selected node the same.
\<close>

lemma GetNode_hashring_successor_unsigned:
  assumes "ring_inv r" and "sortedKeyOfNodes r \<noteq> []" and "generateHash r key = Some h"
  shows "\<exists>w n. nodes r (Uint64 w) = Some n
            \<and> result (GetNode_hashring r key) = Inr n
            \<and> (if \<exists>v. Uint64 v \<in> dom (nodes r) \<and> h \<le> v
               then h \<le> w \<and> (\<forall>v. Uint64 v \<in> dom (nodes r) \<and> h \<le> v \<longrightarrow> w \<le> v)
               else \<forall>v. Uint64 v \<in> dom (nodes r) \<longrightarrow> w \<le> v)"
proof -
  define xs where "xs = sortedKeyOfNodes r"
  define c where "c = clockwise xs (sint h)"
  define w :: uint64 where "w = word_of_int c"
  from assms(1) have inv: "int64_values r" "I1 r" "sorted xs"
    by (simp_all add: ring_inv_def I2_def xs_def)
  have rng: "\<forall>s \<in> set xs. - (2 ^ 63) \<le> s \<and> s < 2 ^ 63"
    using inv(1) by (simp add: int64_values_def xs_def)
  from GetNode_hashring_successor[OF assms]
  obtain n where n: "nodes r (Uint64 w) = Some n" "result (GetNode_hashring r key) = Inr n"
    by (auto simp: w_def c_def xs_def)
  have "is_successor (set xs) (sint h) c"
    unfolding c_def using inv(3) assms(2)[folded xs_def] by (rule clockwise_is_successor)
  then have us: "is_successor (as_unsigned ` set xs) (as_unsigned (sint h)) (as_unsigned c)"
    using rng int64_sint[of h] by (intro is_successor_unsigned) auto
  have c_in: "c \<in> set xs" using us \<open>is_successor (set xs) (sint h) c\<close> by (simp add: is_successor_def)
  have uh: "uint h = as_unsigned (sint h)"
    using uint_of_int64[of "sint h"] int64_sint[of h] by simp
  have uw: "uint w = as_unsigned c"
    unfolding w_def using c_in rng by (intro uint_of_int64) auto
  have keys: "Uint64 v \<in> dom (nodes r) \<longleftrightarrow> (\<exists>s \<in> set xs. v = word_of_int s)" for v
    using inv(2) by (auto simp: I1_def xs_def)
  have uv: "uint (word_of_int s :: uint64) = as_unsigned s" if "s \<in> set xs" for s
    using that rng by (intro uint_of_int64) auto
  have le_h: "h \<le> word_of_int s \<longleftrightarrow> as_unsigned (sint h) \<le> as_unsigned s" if "s \<in> set xs" for s
    using uv[OF that] uh by (simp add: word_le_def)
  have le_w: "w \<le> word_of_int s \<longleftrightarrow> as_unsigned c \<le> as_unsigned s" if "s \<in> set xs" for s
    using uv[OF that] uw by (simp add: word_le_def)
  have hw: "h \<le> w \<longleftrightarrow> as_unsigned (sint h) \<le> as_unsigned c"
    using uh uw by (simp add: word_le_def)
  have "if \<exists>v. Uint64 v \<in> dom (nodes r) \<and> h \<le> v
               then h \<le> w \<and> (\<forall>v. Uint64 v \<in> dom (nodes r) \<and> h \<le> v \<longrightarrow> w \<le> v)
               else \<forall>v. Uint64 v \<in> dom (nodes r) \<longrightarrow> w \<le> v"
  proof (cases "\<exists>t \<in> as_unsigned ` set xs. as_unsigned (sint h) \<le> t")
    case True
    with us have "as_unsigned (sint h) \<le> as_unsigned c"
      "\<forall>t \<in> as_unsigned ` set xs. as_unsigned (sint h) \<le> t \<longrightarrow> as_unsigned c \<le> t"
      by (auto simp: is_successor_def)
    moreover from True have "\<exists>v. Uint64 v \<in> dom (nodes r) \<and> h \<le> v"
      unfolding keys using le_h by blast
    ultimately show ?thesis
      unfolding keys using le_h le_w hw by auto
  next
    case False
    with us have "\<forall>t \<in> as_unsigned ` set xs. as_unsigned c \<le> t"
      by (auto simp: is_successor_def)
    moreover from False have "\<not> (\<exists>v. Uint64 v \<in> dom (nodes r) \<and> h \<le> v)"
      unfolding keys using le_h by blast
    ultimately show ?thesis
      unfolding keys using le_w by auto
  qed
  with n show ?thesis by blast
qed

section \<open>The default hash\<close>

lemma generateHash_New64a:
  "HashFunction (config r) = New64a \<Longrightarrow> generateHash r key = Some (sum64a_Write offset64 key)"
  by (simp add: generateHash_def New64a_def)

lemma unat_of_char: "unat (of_char c :: uint64) = of_char c"
proof -
  have "(of_char c :: uint64) = of_nat (of_char c)" by (simp add: of_nat_of_char)
  then have "unat (of_char c :: uint64) = (of_char c :: nat) mod 2 ^ 64"
    by (simp only: unat_of_nat) simp
  moreover have "(of_char c :: nat) < 2 ^ 64"
  proof -
    have "(of_char c :: nat) < 256" by (rule nat_of_char_less_256)
    also have "(256 :: nat) < 2 ^ 64" by simp
    finally show ?thesis .
  qed
  ultimately show ?thesis by simp
qed

lemma sum64a_step:
  "unat ((w XOR of_char c) * prime64 :: uint64)
     = ((unat w XOR of_char c) * 1099511628211) mod 2 ^ 64"
proof -
  have "unat ((w XOR of_char c) * prime64) = unat (w XOR of_char c) * unat prime64 mod 2 ^ 64"
    by (simp add: unat_word_ariths)
  moreover have "unat (w XOR of_char c :: uint64) = unat w XOR of_char c"
    by (simp add: unsigned_xor_eq unat_of_char)
  moreover have "unat prime64 = 1099511628211" by (simp add: prime64_def)
  ultimately show ?thesis by simp
qed

lemma sum64a_Write_FNV1a:
  "unat (sum64a_Write w key) = fnv1a_fold (unat w) (map of_char key)"
  by (induction key arbitrary: w) (simp_all add: sum64a_step)

lemma fold_log_options:
  assumes "\<forall>opt \<in> set opts. \<exists>b. opt = EnableVerboseLogs b"
  shows "HashFunction (fold (\<lambda>opt config. opt config) opts c) = HashFunction c"
  using assms by (induction opts arbitrary: c) (auto simp: EnableVerboseLogs_def)

section \<open>The first node and the demo ring\<close>

lemma first_node:
  "ring (AddNode (HashRingInit []) node) =
     (HashRingInit [])\<lparr>nodes := [Uint64 (sum64a_Write offset64 (GetIdentifier node)) \<mapsto> node],
                       sortedKeyOfNodes := [sint (sum64a_Write offset64 (GetIdentifier node))]\<rparr>"
  (is "?l = ?r")
proof -
  have g: "generateHash (HashRingInit []) (GetIdentifier node)
             = Some (sum64a_Write offset64 (GetIdentifier node))"
    by (rule generateHash_New64a) (simp add: HashRingInit_def)
  have n: "nodes (HashRingInit []) (Uint64 (sum64a_Write offset64 (GetIdentifier node))) = None"
    by (simp add: HashRingInit_def)
  show ?thesis
    unfolding AddNode_success(1)[OF g n] by (simp add: HashRingInit_def slices_Sort_def)
qed

lemma first_node_hash:
  "generateHash (ring (AddNode (HashRingInit []) node)) key = Some (sum64a_Write offset64 key)"
  by (rule generateHash_New64a) (simp add: AddNode_config HashRingInit_def)

text \<open>The FNV-1a hashes of the identifiers and keys used below, and the ring they give.\<close>

lemma hash_node_1: "sum64a_Write offset64 ''node-1'' = 16615728193742600643"
  by (simp add: offset64_def prime64_def)

lemma hash_node_2: "sum64a_Write offset64 ''node-2'' = 16615729293254228854"
  by (simp add: offset64_def prime64_def)

lemma hash_node_3: "sum64a_Write offset64 ''node-3'' = 16615730392765857065"
  by (simp add: offset64_def prime64_def)

lemma hash_user_123: "sum64a_Write offset64 ''user:123'' = 6854786647135007512"
  by (simp add: offset64_def prime64_def)

lemma hash_node1: "sum64a_Write offset64 ''node1'' = 14577794042753658644"
  by (simp add: offset64_def prime64_def)

lemma hash_test_key: "sum64a_Write offset64 ''test-key'' = 9875687615137630151"
  by (simp add: offset64_def prime64_def)

lemma demo_ring_eq:
  "demo_ring = \<lparr>config = \<lparr>HashFunction = New64a, EnableLogs = False\<rparr>,
      nodes = [Uint64 16615728193742600643 \<mapsto> CacheNode 1 ''node-1'',
               Uint64 16615729293254228854 \<mapsto> CacheNode 2 ''node-2'',
               Uint64 16615730392765857065 \<mapsto> CacheNode 3 ''node-3''],
      sortedKeyOfNodes = [- 1831015879966950973, - 1831014780455322762, - 1831013680943694551]\<rparr>"
proof -
  let ?r1 = "ring (AddNode (HashRingInit []) (CacheNode 1 ''node-1''))"
  have r1: "?r1 = \<lparr>config = \<lparr>HashFunction = New64a, EnableLogs = False\<rparr>,
      nodes = [Uint64 16615728193742600643 \<mapsto> CacheNode 1 ''node-1''],
      sortedKeyOfNodes = [- 1831015879966950973]\<rparr>"
    unfolding first_node by (simp add: hash_node_1 HashRingInit_def del: sum64a_Write.simps)
  let ?r2 = "ring (AddNode ?r1 (CacheNode 2 ''node-2''))"
  have g2: "generateHash ?r1 (GetIdentifier (CacheNode 2 ''node-2'')) = Some 16615729293254228854"
    by (simp add: first_node_hash hash_node_2 del: sum64a_Write.simps)
  have n2: "nodes ?r1 (Uint64 16615729293254228854) = None"
    unfolding r1 by simp
  have r2: "?r2 = \<lparr>config = \<lparr>HashFunction = New64a, EnableLogs = False\<rparr>,
      nodes = [Uint64 16615728193742600643 \<mapsto> CacheNode 1 ''node-1'',
               Uint64 16615729293254228854 \<mapsto> CacheNode 2 ''node-2''],
      sortedKeyOfNodes = [- 1831015879966950973, - 1831014780455322762]\<rparr>"
    unfolding AddNode_success(1)[OF g2 n2] unfolding r1 by (simp add: slices_Sort_def)
  have g3: "generateHash ?r2 (GetIdentifier (CacheNode 3 ''node-3'')) = Some 16615730392765857065"
    unfolding r2 by (simp add: generateHash_New64a hash_node_3 del: sum64a_Write.simps)
  have n3: "nodes ?r2 (Uint64 16615730392765857065) = None"
    unfolding r2 by simp
  show ?thesis
    unfolding demo_ring_def AddNode_success(1)[OF g3 n3] unfolding r2
    by (simp add: slices_Sort_def)
qed

lemma demo_ring_reachable: "reachable demo_ring"
  unfolding demo_ring_def by (intro reachable_AddNode reachable_init)

lemma demo_ring_hash: "generateHash demo_ring key = Some (sum64a_Write offset64 key)"
  by (rule generateHash_New64a) (simp add: demo_ring_eq)

section \<open>Properties of the ring\<close>

text \<open>
  C1 asks that a lookup on a ring with nodes returns the node stored under the clockwise
  successor of the key's hash. On the ring that holds the single node \<^verbatim>\<open>node1\<close>, the
  lookup of package \<^verbatim>\<open>consistenthash\<close> for the key \<^verbatim>\<open>test-key\<close> returns the
  node-not-found error instead: it asks the mapping for the \<^verbatim>\<open>int64\<close> key, and the node
  is stored under the \<^verbatim>\<open>uint64\<close> key. The lookup of package \<^verbatim>\<open>hashring\<close> returns the
  node.
\<close>

theorem C1_lookup_misses_every_node:
  "sortedKeyOfNodes (ring (AddNode (HashRingInit []) (CacheNode 1 ''node1'')))
     = [- 3868950030955892972]
   \<and> generateHash (ring (AddNode (HashRingInit []) (CacheNode 1 ''node1''))) ''test-key''
     = Some 9875687615137630151
   \<and> result (GetNode (ring (AddNode (HashRingInit []) (CacheNode 1 ''node1''))) ''test-key'')
     = Inl (Errorf ErrNodeNotFound ''no node found for key test-key'')
   \<and> result (GetNode_hashring (ring (AddNode (HashRingInit []) (CacheNode 1 ''node1'')))
        ''test-key'')
     = Inr (CacheNode 1 ''node1'')"
proof -
  let ?n = "CacheNode 1 ''node1''"
  let ?r = "ring (AddNode (HashRingInit []) ?n)"
  have r: "?r = \<lparr>config = \<lparr>HashFunction = New64a, EnableLogs = False\<rparr>,
      nodes = [Uint64 14577794042753658644 \<mapsto> ?n],
      sortedKeyOfNodes = [- 3868950030955892972]\<rparr>"
    unfolding first_node by (simp add: hash_node1 HashRingInit_def del: sum64a_Write.simps)
  have s: "sortedKeyOfNodes ?r = [- 3868950030955892972]" unfolding r by simp
  have g: "generateHash ?r ''test-key'' = Some 9875687615137630151"
    by (simp add: first_node_hash hash_test_key del: sum64a_Write.simps)
  have i1: "I1 ?r"
    using reachable_ring_inv[OF reachable_AddNode[OF reachable_init]] by (simp add: ring_inv_def)
  have ne: "sortedKeyOfNodes ?r \<noteq> []" unfolding s by simp
  have miss: "result (GetNode ?r ''test-key'')
     = Inl (Errorf ErrNodeNotFound ''no node found for key test-key'')"
    unfolding GetNode_misses[OF i1 ne g] by simp
  have hit: "result (GetNode_hashring ?r ''test-key'') = Inr ?n"
  proof (rule GetNode_hashring_at[OF _ ne g])
    show "sorted (sortedKeyOfNodes ?r)" unfolding s by simp
    show "nodes ?r (Uint64 (word_of_int (clockwise (sortedKeyOfNodes ?r)
            (sint (9875687615137630151 :: uint64))))) = Some ?n"
      unfolding s unfolding r by (simp add: clockwise_def)
  qed
  from s g miss hit show ?thesis by (intro conjI)
qed

text \<open>
  C2 asks that under I1 the mapping lookup at the selected hash succeeds. On the demo ring
  I1 holds, the ordered search for the key \<^verbatim>\<open>user:123\<close> wraps around to position 0, and
  the node \<^verbatim>\<open>node-1\<close> is stored under that hash as a \<^verbatim>\<open>uint64\<close> key; the lookup of
  package \<^verbatim>\<open>consistenthash\<close> asks for the \<^verbatim>\<open>int64\<close> key, finds nothing and returns
  the node-not-found error. The lookup of package \<^verbatim>\<open>hashring\<close> returns the node.
\<close>

theorem C2_lookup_fails_under_I1:
  "I1 demo_ring
   \<and> sortedKeyOfNodes demo_ring
       = [- 1831015879966950973, - 1831014780455322762, - 1831013680943694551]
   \<and> generateHash demo_ring ''user:123'' = Some 6854786647135007512
   \<and> binarySearch demo_ring (sint (6854786647135007512 :: uint64)) = Inr 0
   \<and> nodes demo_ring (Uint64 (word_of_int (- 1831015879966950973)))
       = Some (CacheNode 1 ''node-1'')
   \<and> nodes demo_ring (Int64 (- 1831015879966950973)) = None
   \<and> result (GetNode demo_ring ''user:123'')
       = Inl (Errorf ErrNodeNotFound ''no node found for key user:123'')
   \<and> result (GetNode_hashring demo_ring ''user:123'') = Inr (CacheNode 1 ''node-1'')"
proof -
  have i1: "I1 demo_ring"
    using reachable_ring_inv[OF demo_ring_reachable] by (simp add: ring_inv_def)
  have s: "sortedKeyOfNodes demo_ring
       = [- 1831015879966950973, - 1831014780455322762, - 1831013680943694551]"
    by (simp add: demo_ring_eq)
  have g: "generateHash demo_ring ''user:123'' = Some 6854786647135007512"
    by (simp add: demo_ring_hash hash_user_123 del: sum64a_Write.simps)
  have srt: "sorted (sortedKeyOfNodes demo_ring)" unfolding s by simp
  have ne: "sortedKeyOfNodes demo_ring \<noteq> []" unfolding s by simp
  have b: "binarySearch demo_ring (sint (6854786647135007512 :: uint64)) = Inr 0"
    using binarySearch_clockwise[OF srt ne, of "sint (6854786647135007512 :: uint64)"]
    unfolding s by simp
  have u: "nodes demo_ring (Uint64 (word_of_int (- 1831015879966950973)))
       = Some (CacheNode 1 ''node-1'')"
    by (simp add: demo_ring_eq)
  have i: "nodes demo_ring (Int64 (- 1831015879966950973)) = None"
    by (simp add: demo_ring_eq)
  have miss: "result (GetNode demo_ring ''user:123'')
       = Inl (Errorf ErrNodeNotFound ''no node found for key user:123'')"
    unfolding GetNode_misses[OF i1 ne g] by simp
  have hit: "result (GetNode_hashring demo_ring ''user:123'') = Inr (CacheNode 1 ''node-1'')"
  proof (rule GetNode_hashring_at[OF srt ne g])
    show "nodes demo_ring (Uint64 (word_of_int (clockwise (sortedKeyOfNodes demo_ring)
            (sint (6854786647135007512 :: uint64))))) = Some (CacheNode 1 ''node-1'')"
      unfolding s using u by (simp add: clockwise_def)
  qed
  from i1 s g b u i miss hit show ?thesis by (intro conjI)
qed

text \<open>
  C3. On every ring a caller can hold, I1 and I2 hold, and they hold again after any
  call of \<^verbatim>\<open>AddNode\<close> or \<^verbatim>\<open>RemoveNode\<close>, whether the call succeeded or failed;
  \<^verbatim>\<open>GetNode\<close> (either copy) leaves the mapping and the ordered sequence as they were.
\<close>

theorem C3_invariants:
  assumes "reachable r"
  shows "I1 r \<and> I2 r
       \<and> I1 (ring (AddNode r node)) \<and> I2 (ring (AddNode r node))
       \<and> I1 (ring (RemoveNode r node)) \<and> I2 (ring (RemoveNode r node))
       \<and> nodes (ring (GetNode r key)) = nodes r
       \<and> sortedKeyOfNodes (ring (GetNode r key)) = sortedKeyOfNodes r
       \<and> nodes (ring (GetNode_hashring r key)) = nodes r
       \<and> sortedKeyOfNodes (ring (GetNode_hashring r key)) = sortedKeyOfNodes r"
proof -
  from assms have inv: "ring_inv r" by (rule reachable_ring_inv)
  then have "ring_inv (ring (AddNode r node))" "ring_inv (ring (RemoveNode r node))"
    by (rule ring_inv_AddNode, rule ring_inv_RemoveNode)
  with inv show ?thesis
    by (simp add: ring_inv_def GetNode_ring GetNode_hashring_ring)
qed

theorem C3_invariants_witness:
  "reachable (ring (AddNode (HashRingInit []) (CacheNode 1 ''node1'')))
   \<and> I1 (ring (RemoveNode (ring (AddNode (HashRingInit []) (CacheNode 1 ''node1'')))
                 (CacheNode 1 ''node1'')))
   \<and> I2 (ring (AddNode (ring (AddNode (HashRingInit []) (CacheNode 1 ''node1'')))
                 (CacheNode 2 ''node2'')))"
proof -
  have r: "reachable (ring (AddNode (HashRingInit []) (CacheNode 1 ''node1'')))"
    by (intro reachable_AddNode reachable_init)
  from C3_invariants[OF r, where node = "CacheNode 1 ''node1''"]
    C3_invariants[OF r, where node = "CacheNode 2 ''node2''"] r
  show ?thesis by simp
qed

text \<open>
  C4. On a reachable ring with at least two registered nodes, removing a registered node
  \<open>x\<close> succeeds, and for every key the lookup of package \<^verbatim>\<open>hashring\<close> afterwards
  returns what it returned before, unless it returned \<open>x\<close>: then it returns the node
  that followed \<open>x\<close> on the ring, which is another node. The lookup of package
  \<^verbatim>\<open>consistenthash\<close> returns the same result before and after for every key.
\<close>

theorem C4_minimal_disruption:
  assumes "reachable r"
    and "generateHash r (GetIdentifier x) = Some hx" and "nodes r (Uint64 hx) = Some x"
    and "2 \<le> length (sortedKeyOfNodes r)"
  shows "result (RemoveNode r x) = None
       \<and> (\<exists>y. nodes r (Uint64 (word_of_int (next_hash (sortedKeyOfNodes r) (sint hx)))) = Some y
              \<and> y \<noteq> x
              \<and> (\<forall>key. (result (GetNode_hashring r key) = Inr x \<longrightarrow>
                          result (GetNode_hashring (ring (RemoveNode r x)) key) = Inr y)
                      \<and> (result (GetNode_hashring r key) \<noteq> Inr x \<longrightarrow>
                          result (GetNode_hashring (ring (RemoveNode r x)) key)
                            = result (GetNode_hashring r key))))
       \<and> (\<forall>key. result (GetNode (ring (RemoveNode r x)) key) = result (GetNode r key))"
proof -
  define xs where "xs = sortedKeyOfNodes r"
  define a where "a = sint hx"
  define r' where "r' = ring (RemoveNode r x)"
  define d where "d = next_hash xs a"
  from assms(1) have rinv: "ring_inv r" by (rule reachable_ring_inv)
  then have inv: "int64_values r" "I1 r" "I2 r" "keyed_by_hash r"
    by (simp_all add: ring_inv_def)
  have srt: "sorted xs" "distinct xs" using inv(3) by (simp_all add: I2_def xs_def)
  have rng: "\<forall>s \<in> set xs. - (2 ^ 63) \<le> s \<and> s < 2 ^ 63"
    using inv(1) by (simp add: int64_values_def xs_def)
  have a_in: "a \<in> set xs"
    unfolding a_def xs_def using inv(1,2) assms(3) by (rule stored_in_sequence)
  have ne: "sortedKeyOfNodes r \<noteq> []" using assms(4) by auto
  have ok: "result (RemoveNode r x) = None"
    using inv(1,2,3) assms(2,3) by (rule RemoveNode_success)
  have r': "r' = r\<lparr>nodes := (nodes r)(Uint64 hx := None), sortedKeyOfNodes := remove1 a xs\<rparr>"
    unfolding r'_def a_def xs_def using inv(1,2,3) assms(2,3) by (rule RemoveNode_success)
  have rinv': "ring_inv r'" unfolding r'_def using rinv by (rule ring_inv_RemoveNode)
  have cfg: "config r' = config r" by (simp add: r')
  have ne': "sortedKeyOfNodes r' \<noteq> []"
  proof -
    have "length (remove1 a xs) = length xs - 1" using a_in by (simp add: length_remove1)
    then show ?thesis using assms(4) by (auto simp: r' xs_def)
  qed
  have d_in: "d \<in> set xs - {a}"
    unfolding d_def using srt a_in assms(4)[folded xs_def] by (rule clockwise_remove1(1))
  have hx_iff: "word_of_int s = hx \<longleftrightarrow> s = a" if "s \<in> set xs" for s
  proof
    assume "word_of_int s = hx"
    then have "sint (word_of_int s :: uint64) = a" by (simp add: a_def)
    with that rng show "s = a" by (simp add: int64_uint64)
  next
    assume "s = a" then show "word_of_int s = hx" by (simp add: a_def)
  qed
  have owner: "s = a" if "s \<in> set xs" "nodes r (Uint64 (word_of_int s)) = Some x" for s
  proof -
    from inv(4) that(2) have "generateHash r (GetIdentifier x) = Some (word_of_int s)"
      by (simp add: keyed_by_hash_def)
    with assms(2) have "word_of_int s = hx" by simp
    with that(1) show ?thesis by (simp add: hx_iff)
  qed
  have "Uint64 (word_of_int d) \<in> dom (nodes r)"
    using inv(2) d_in by (auto simp: I1_def xs_def)
  then obtain y where y: "nodes r (Uint64 (word_of_int d)) = Some y" by blast
  have yx: "y \<noteq> x" using owner[of d] y d_in by auto
  have keep: "nodes r' (Uint64 (word_of_int s)) = nodes r (Uint64 (word_of_int s))"
    if "s \<in> set xs" "s \<noteq> a" for s
    using that hx_iff[of s] by (simp add: r')
  have look: "(result (GetNode_hashring r key) = Inr x \<longrightarrow> result (GetNode_hashring r' key) = Inr y)
            \<and> (result (GetNode_hashring r key) \<noteq> Inr x \<longrightarrow>
                  result (GetNode_hashring r' key) = result (GetNode_hashring r key))" for key
  proof (cases "generateHash r key")
    case None
    then have "generateHash r' key = None" by (simp add: generateHash_config[OF cfg])
    with None show ?thesis by (simp add: GetNode_hashring_def)
  next
    case (Some h)
    then have h': "generateHash r' key = Some h" by (simp add: generateHash_config[OF cfg])
    define c where "c = clockwise xs (sint h)"
    from GetNode_hashring_successor[OF rinv ne Some]
    obtain n where n: "c \<in> set xs" "nodes r (Uint64 (word_of_int c)) = Some n"
      "result (GetNode_hashring r key) = Inr n"
      by (auto simp: c_def xs_def)
    define c' where "c' = clockwise (remove1 a xs) (sint h)"
    from GetNode_hashring_successor[OF rinv' ne' h']
    obtain n' where n': "nodes r' (Uint64 (word_of_int c')) = Some n'"
      "result (GetNode_hashring r' key) = Inr n'"
      by (auto simp: c'_def r')
    have c'_eq: "c' = (if c = a then d else c)"
      unfolding c'_def c_def d_def using srt a_in assms(4)[folded xs_def]
      by (rule clockwise_remove1(2))
    show ?thesis
    proof (cases "c = a")
      case True
      then have "n = x" using n(2) assms(3) hx_iff[of a] a_in by simp
      moreover have "n' = y"
        using n'(1) c'_eq True keep[of d] d_in y by simp
      ultimately show ?thesis using n(3) n'(2) by simp
    next
      case False
      then have "n' = n" using n'(1) c'_eq keep[of c] n(1,2) by simp
      moreover have "n \<noteq> x" using owner[of c] n(1,2) False by auto
      ultimately show ?thesis using n(3) n'(2) by simp
    qed
  qed
  have i1': "I1 r'" using rinv' by (simp add: ring_inv_def)
  have old: "result (GetNode r' key) = result (GetNode r key)" for key
    using inv(2) i1' ne ne' cfg by (rule GetNode_constant_on_nodes)
  have "\<exists>y. nodes r (Uint64 (word_of_int d)) = Some y \<and> y \<noteq> x
          \<and> (\<forall>key. (result (GetNode_hashring r key) = Inr x \<longrightarrow>
                          result (GetNode_hashring r' key) = Inr y)
                      \<and> (result (GetNode_hashring r key) \<noteq> Inr x \<longrightarrow>
                          result (GetNode_hashring r' key) = result (GetNode_hashring r key)))"
  proof (intro exI conjI allI)
    show "nodes r (Uint64 (word_of_int d)) = Some y" by (rule y)
    show "y \<noteq> x" by (rule yx)
    show "result (GetNode_hashring r key) = Inr x \<longrightarrow>
            result (GetNode_hashring r' key) = Inr y" for key
      using look[of key] by (rule conjunct1)
    show "result (GetNode_hashring r key) \<noteq> Inr x \<longrightarrow>
            result (GetNode_hashring r' key) = result (GetNode_hashring r key)" for key
      using look[of key] by (rule conjunct2)
  qed
  moreover have "\<forall>key. result (GetNode r' key) = result (GetNode r key)"
    using old by (rule allI)
  ultimately show ?thesis
    using ok unfolding r'_def d_def xs_def a_def by (intro conjI)
qed

theorem C4_minimal_disruption_witness:
  "reachable demo_ring
   \<and> generateHash demo_ring (GetIdentifier (CacheNode 2 ''node-2'')) = Some 16615729293254228854
   \<and> nodes demo_ring (Uint64 16615729293254228854) = Some (CacheNode 2 ''node-2'')
   \<and> 2 \<le> length (sortedKeyOfNodes demo_ring)
   \<and> result (RemoveNode demo_ring (CacheNode 2 ''node-2'')) = None
   \<and> nodes demo_ring (Uint64 (word_of_int (next_hash (sortedKeyOfNodes demo_ring)
         (sint (16615729293254228854 :: uint64))))) = Some (CacheNode 3 ''node-3'')
   \<and> result (GetNode_hashring demo_ring ''node-2'') = Inr (CacheNode 2 ''node-2'')
   \<and> result (GetNode_hashring (ring (RemoveNode demo_ring (CacheNode 2 ''node-2''))) ''node-2'')
       = Inr (CacheNode 3 ''node-3'')
   \<and> result (GetNode_hashring demo_ring ''user:123'') = Inr (CacheNode 1 ''node-1'')
   \<and> result (GetNode_hashring (ring (RemoveNode demo_ring (CacheNode 2 ''node-2''))) ''user:123'')
       = Inr (CacheNode 1 ''node-1'')"
proof -
  let ?x = "CacheNode 2 ''node-2''"
  let ?r' = "ring (RemoveNode demo_ring ?x)"
  have s: "sortedKeyOfNodes demo_ring
       = [- 1831015879966950973, - 1831014780455322762, - 1831013680943694551]"
    by (simp add: demo_ring_eq)
  have srt: "sorted (sortedKeyOfNodes demo_ring)" unfolding s by simp
  have ne: "sortedKeyOfNodes demo_ring \<noteq> []" unfolding s by simp
  have g: "generateHash demo_ring (GetIdentifier ?x) = Some 16615729293254228854"
    by (simp add: demo_ring_hash hash_node_2 del: sum64a_Write.simps)
  have n: "nodes demo_ring (Uint64 16615729293254228854) = Some ?x"
    by (simp add: demo_ring_eq)
  have l: "2 \<le> length (sortedKeyOfNodes demo_ring)" unfolding s by simp
  have nx: "nodes demo_ring (Uint64 (word_of_int (next_hash (sortedKeyOfNodes demo_ring)
         (sint (16615729293254228854 :: uint64))))) = Some (CacheNode 3 ''node-3'')"
    unfolding s by (simp add: next_hash_def clockwise_def demo_ring_eq)
  have k2: "result (GetNode_hashring demo_ring ''node-2'') = Inr ?x"
  proof (rule GetNode_hashring_at[OF srt ne])
    show "generateHash demo_ring ''node-2'' = Some 16615729293254228854"
      using g by simp
    show "nodes demo_ring (Uint64 (word_of_int (clockwise (sortedKeyOfNodes demo_ring)
            (sint (16615729293254228854 :: uint64))))) = Some ?x"
      unfolding s by (simp add: clockwise_def demo_ring_eq)
  qed
  have k1: "result (GetNode_hashring demo_ring ''user:123'') = Inr (CacheNode 1 ''node-1'')"
  proof (rule GetNode_hashring_at[OF srt ne])
    show "generateHash demo_ring ''user:123'' = Some 6854786647135007512"
      by (simp add: demo_ring_hash hash_user_123 del: sum64a_Write.simps)
    show "nodes demo_ring (Uint64 (word_of_int (clockwise (sortedKeyOfNodes demo_ring)
            (sint (6854786647135007512 :: uint64))))) = Some (CacheNode 1 ''node-1'')"
      unfolding s by (simp add: clockwise_def demo_ring_eq)
  qed
  from C4_minimal_disruption[OF demo_ring_reachable g n l] nx
  have ok: "result (RemoveNode demo_ring ?x) = None"
    and moved: "result (GetNode_hashring demo_ring key) = Inr ?x \<Longrightarrow>
                  result (GetNode_hashring ?r' key) = Inr (CacheNode 3 ''node-3'')"
    and kept: "result (GetNode_hashring demo_ring key) \<noteq> Inr ?x \<Longrightarrow>
                  result (GetNode_hashring ?r' key) = result (GetNode_hashring demo_ring key)"
    for key
    by auto
  have a2: "result (GetNode_hashring ?r' ''node-2'') = Inr (CacheNode 3 ''node-3'')"
    using k2 by (rule moved)
  have a1: "result (GetNode_hashring ?r' ''user:123'') = Inr (CacheNode 1 ''node-1'')"
    using kept[of "''user:123''"] k1 by simp
  from demo_ring_reachable g n l ok nx k2 a2 k1 a1 show ?thesis by (intro conjI)
qed

text \<open>
  C5. A call of \<^verbatim>\<open>AddNode\<close> or \<^verbatim>\<open>RemoveNode\<close> that returns an error leaves the ring
  exactly as it was; a call that returns no error has updated both the mapping and the
  ordered sequence.
\<close>

theorem C5_failure_is_noop:
  assumes "reachable r"
  shows "(result (AddNode r node) \<noteq> None \<longrightarrow> ring (AddNode r node) = r)
       \<and> (result (RemoveNode r node) \<noteq> None \<longrightarrow> ring (RemoveNode r node) = r)
       \<and> (result (AddNode r node) = None \<longrightarrow>
            (\<exists>h. generateHash r (GetIdentifier node) = Some h
               \<and> nodes r (Uint64 h) = None
               \<and> nodes (ring (AddNode r node)) = (nodes r)(Uint64 h \<mapsto> node)
               \<and> sortedKeyOfNodes (ring (AddNode r node))
                   = slices_Sort (sortedKeyOfNodes r @ [sint h])))
       \<and> (result (RemoveNode r node) = None \<longrightarrow>
            (\<exists>h. generateHash r (GetIdentifier node) = Some h
               \<and> nodes r (Uint64 h) \<noteq> None
               \<and> nodes (ring (RemoveNode r node)) = (nodes r)(Uint64 h := None)
               \<and> sortedKeyOfNodes (ring (RemoveNode r node))
                   = remove1 (sint h) (sortedKeyOfNodes r)))"
proof -
  from assms have inv: "int64_values r" "I1 r" "I2 r"
    using reachable_ring_inv by (simp_all add: ring_inv_def)
  have add_fail: "result (AddNode r node) \<noteq> None \<longrightarrow> ring (AddNode r node) = r"
    by (simp add: AddNode_def split: option.splits)
  have add_ok: "result (AddNode r node) = None \<longrightarrow>
            (\<exists>h. generateHash r (GetIdentifier node) = Some h
               \<and> nodes r (Uint64 h) = None
               \<and> nodes (ring (AddNode r node)) = (nodes r)(Uint64 h \<mapsto> node)
               \<and> sortedKeyOfNodes (ring (AddNode r node))
                   = slices_Sort (sortedKeyOfNodes r @ [sint h]))"
    by (simp add: AddNode_def split: option.splits)
  have remove: "(result (RemoveNode r node) \<noteq> None \<longrightarrow> ring (RemoveNode r node) = r)
       \<and> (result (RemoveNode r node) = None \<longrightarrow>
            (\<exists>h. generateHash r (GetIdentifier node) = Some h
               \<and> nodes r (Uint64 h) \<noteq> None
               \<and> nodes (ring (RemoveNode r node)) = (nodes r)(Uint64 h := None)
               \<and> sortedKeyOfNodes (ring (RemoveNode r node))
                   = remove1 (sint h) (sortedKeyOfNodes r)))"
  proof (cases "generateHash r (GetIdentifier node)")
    case None
    then show ?thesis by (simp add: RemoveNode_failure)
  next
    case (Some h)
    show ?thesis
    proof (cases "nodes r (Uint64 h)")
      case None
      with Some have "generateHash r (GetIdentifier node) = None \<or>
           (\<exists>h. generateHash r (GetIdentifier node) = Some h \<and> nodes r (Uint64 h) = None)"
        by simp
      then have "ring (RemoveNode r node) = r" "result (RemoveNode r node) \<noteq> None"
        by (rule RemoveNode_failure)+
      then show ?thesis by auto
    next
      case (Some d)
      from RemoveNode_success[OF inv \<open>generateHash r (GetIdentifier node) = Some h\<close> Some]
      show ?thesis using Some \<open>generateHash r (GetIdentifier node) = Some h\<close> by simp
    qed
  qed
  from add_fail add_ok remove show ?thesis by blast
qed

theorem C5_failure_is_noop_witness:
  "reachable (ring (AddNode (HashRingInit []) (CacheNode 1 ''node1'')))
   \<and> result (AddNode (ring (AddNode (HashRingInit []) (CacheNode 1 ''node1'')))
               (CacheNode 1 ''node1'')) \<noteq> None
   \<and> ring (AddNode (ring (AddNode (HashRingInit []) (CacheNode 1 ''node1'')))
               (CacheNode 1 ''node1''))
       = ring (AddNode (HashRingInit []) (CacheNode 1 ''node1''))"
proof -
  let ?n = "CacheNode 1 ''node1''"
  let ?r = "ring (AddNode (HashRingInit []) ?n)"
  have r: "reachable ?r"
    by (intro reachable_AddNode reachable_init)
  have "nodes ?r (Uint64 (sum64a_Write offset64 (GetIdentifier ?n))) = Some ?n"
    unfolding first_node by simp
  then have "result (AddNode ?r ?n) \<noteq> None"
    using first_node_hash[of ?n "GetIdentifier ?n"] by (intro AddNode_failure(2)) blast
  with C5_failure_is_noop[OF r, where node = ?n] r
  show ?thesis by blast
qed

text \<open>
  C6, as stated, fails: on an empty ring whose hash function cannot consume the input,
  \<^verbatim>\<open>GetNode\<close> and \<^verbatim>\<open>RemoveNode\<close> return the hashing error, because both hash
  before they look at the ring.
\<close>

theorem C6_counterexample:
  "nodes (HashRingInit [SetHashFunction failing_writer]) = Map.empty
   \<and> sortedKeyOfNodes (HashRingInit [SetHashFunction failing_writer]) = []
   \<and> result (GetNode (HashRingInit [SetHashFunction failing_writer]) ''any-key'')
       = Inl (Errorf ErrInHashingKey ''any-key'')
   \<and> result (GetNode (HashRingInit [SetHashFunction failing_writer]) ''any-key'')
       \<noteq> Inl (Sentinel ErrNoConnectedNodes)
   \<and> fails_with (result (RemoveNode (HashRingInit [SetHashFunction failing_writer])
                           (CacheNode 1 ''node1''))) ErrInHashingKey
   \<and> \<not> fails_with (result (RemoveNode (HashRingInit [SetHashFunction failing_writer])
                           (CacheNode 1 ''node1''))) ErrNodeNotFound"
  by (simp add: HashRingInit_def SetHashFunction_def failing_writer_def GetNode_def
      RemoveNode_def generateHash_def fails_with_def)

text \<open>
  C6, amended. On a ring with zero registered nodes, when the hash function consumes the
  input (the default FNV-1a always does), \<^verbatim>\<open>GetNode\<close> returns the no-nodes error and
  \<^verbatim>\<open>RemoveNode\<close> the node-not-found error; when it does not, both return the
  hashing error.
\<close>

theorem C6_emptiness:
  assumes "nodes r = Map.empty" and "sortedKeyOfNodes r = []"
  shows "(generateHash r key \<noteq> None \<longrightarrow>
            result (GetNode r key) = Inl (Sentinel ErrNoConnectedNodes)
          \<and> result (GetNode_hashring r key) = Inl (Sentinel ErrNoConnectedNodes))
       \<and> (generateHash r key = None \<longrightarrow>
            result (GetNode r key) = Inl (Errorf ErrInHashingKey key)
          \<and> result (GetNode_hashring r key) = Inl (Errorf ErrInHashingKey key))
       \<and> (generateHash r (GetIdentifier node) \<noteq> None \<longrightarrow>
            result (RemoveNode r node) = Some (Errorf ErrNodeNotFound (GetIdentifier node)))
       \<and> (generateHash r (GetIdentifier node) = None \<longrightarrow>
            result (RemoveNode r node) = Some (Errorf ErrInHashingKey (GetIdentifier node)))
       \<and> (HashFunction (config r) = New64a \<longrightarrow>
            generateHash r key \<noteq> None \<and> generateHash r (GetIdentifier node) \<noteq> None)"
  using assms
  by (auto simp: GetNode_def GetNode_hashring_def RemoveNode_def binarySearch_def
      generateHash_New64a)

theorem C6_emptiness_witness:
  "nodes (HashRingInit []) = Map.empty \<and> sortedKeyOfNodes (HashRingInit []) = []
   \<and> HashFunction (config (HashRingInit [])) = New64a
   \<and> result (GetNode (HashRingInit []) ''any-key'') = Inl (Sentinel ErrNoConnectedNodes)
   \<and> result (RemoveNode (HashRingInit []) (CacheNode 1 ''node1''))
       = Some (Errorf ErrNodeNotFound ''node1'')"
proof -
  have e: "nodes (HashRingInit []) = Map.empty" "sortedKeyOfNodes (HashRingInit []) = []"
    and d: "HashFunction (config (HashRingInit [])) = New64a"
    by (simp_all add: HashRingInit_def)
  from C6_emptiness[OF e, where key = "''any-key''" and node = "CacheNode 1 ''node1''"] e d
  show ?thesis by simp
qed




text \<open>
  C9. A ring constructed with no hash-function option (logging options only) hashes
  every string, at construction and after any sequence of calls, to its 64-bit FNV-1a
  hash: \<^verbatim>\<open>generateHash\<close> succeeds and its value, read as a number, is the FNV-1a
  hash of the bytes.
\<close>

theorem C9_default_hash_is_FNV1a:
  assumes "\<forall>opt \<in> set opts. \<exists>b. opt = EnableVerboseLogs b"
    and "reaches (HashRingInit opts) r"
  shows "\<exists>h. generateHash r key = Some h \<and> unat h = FNV1a_64 (map of_char key)"
proof -
  have "HashFunction (config (HashRingInit opts)) = New64a"
    using fold_log_options[OF assms(1)] by (simp add: HashRingInit_def)
  then have "HashFunction (config r) = New64a"
    using reaches_config[OF assms(2)] by simp
  then have "generateHash r key = Some (sum64a_Write offset64 key)"
    by (rule generateHash_New64a)
  moreover have "unat (sum64a_Write offset64 key) = FNV1a_64 (map of_char key)"
    by (simp add: sum64a_Write_FNV1a FNV1a_64_def offset64_def)
  ultimately show ?thesis by simp
qed

theorem C9_default_hash_is_FNV1a_witness:
  "(\<exists>b. EnableVerboseLogs True = EnableVerboseLogs b)
   \<and> reaches (HashRingInit [EnableVerboseLogs True])
        (ring (AddNode (HashRingInit [EnableVerboseLogs True]) (CacheNode 1 ''node1'')))
   \<and> (\<exists>h. generateHash
              (ring (AddNode (HashRingInit [EnableVerboseLogs True]) (CacheNode 1 ''node1'')))
              ''a'' = Some h
          \<and> unat h = FNV1a_64 (map of_char ''a''))
   \<and> FNV1a_64 (map of_char ''a'') = 12638187200555641996"
proof -
  have o: "\<forall>opt \<in> set [EnableVerboseLogs True]. \<exists>b. opt = EnableVerboseLogs b" by auto
  have r: "reaches (HashRingInit [EnableVerboseLogs True])
        (ring (AddNode (HashRingInit [EnableVerboseLogs True]) (CacheNode 1 ''node1'')))"
    by (intro reaches.add reaches.start)
  have v: "FNV1a_64 (map of_char ''a'') = 12638187200555641996"
    by (simp add: FNV1a_64_def)
  from C9_default_hash_is_FNV1a[OF o r, of "''a''"] o r v show ?thesis by auto
qed

text \<open>
  C10. Switching verbose logging on or off changes neither what a call returns nor the
  ring it leaves (the flag itself apart), for each of the three operations and from
  every ring; \<^verbatim>\<open>EnableVerboseLogs\<close> at construction sets only that flag.
\<close>

theorem C10_logging_is_advisory:
  "result (AddNode (r\<lparr>config := (config r)\<lparr>EnableLogs := b\<rparr>\<rparr>) node) = result (AddNode r node)
   \<and> ring (AddNode (r\<lparr>config := (config r)\<lparr>EnableLogs := b\<rparr>\<rparr>) node)
       = (ring (AddNode r node))\<lparr>config := (config r)\<lparr>EnableLogs := b\<rparr>\<rparr>
   \<and> result (GetNode (r\<lparr>config := (config r)\<lparr>EnableLogs := b\<rparr>\<rparr>) key) = result (GetNode r key)
   \<and> ring (GetNode (r\<lparr>config := (config r)\<lparr>EnableLogs := b\<rparr>\<rparr>) key)
       = (ring (GetNode r key))\<lparr>config := (config r)\<lparr>EnableLogs := b\<rparr>\<rparr>
   \<and> result (GetNode_hashring (r\<lparr>config := (config r)\<lparr>EnableLogs := b\<rparr>\<rparr>) key)
       = result (GetNode_hashring r key)
   \<and> ring (GetNode_hashring (r\<lparr>config := (config r)\<lparr>EnableLogs := b\<rparr>\<rparr>) key)
       = (ring (GetNode_hashring r key))\<lparr>config := (config r)\<lparr>EnableLogs := b\<rparr>\<rparr>
   \<and> result (RemoveNode (r\<lparr>config := (config r)\<lparr>EnableLogs := b\<rparr>\<rparr>) node)
       = result (RemoveNode r node)
   \<and> ring (RemoveNode (r\<lparr>config := (config r)\<lparr>EnableLogs := b\<rparr>\<rparr>) node)
       = (ring (RemoveNode r node))\<lparr>config := (config r)\<lparr>EnableLogs := b\<rparr>\<rparr>
   \<and> HashRingInit (opts @ [EnableVerboseLogs b])
       = (HashRingInit opts)\<lparr>config := (config (HashRingInit opts))\<lparr>EnableLogs := b\<rparr>\<rparr>"
proof -
  let ?r = "r\<lparr>config := (config r)\<lparr>EnableLogs := b\<rparr>\<rparr>"
  have g: "generateHash ?r = generateHash r"
    by (rule ext) (simp add: generateHash_def)
  have s: "binarySearch (x\<lparr>config := c\<rparr>) k = binarySearch x k" for x c k
    by (simp add: binarySearch_def)
  have s2: "binarySearch (x\<lparr>nodes := m\<rparr>) k = binarySearch x k" for x m k
    by (simp add: binarySearch_def)
  have "result (AddNode ?r node) = result (AddNode r node)
      \<and> ring (AddNode ?r node) = (ring (AddNode r node))\<lparr>config := (config r)\<lparr>EnableLogs := b\<rparr>\<rparr>"
    by (simp add: AddNode_def g split: option.splits)
  moreover have "result (GetNode ?r key) = result (GetNode r key)
      \<and> ring (GetNode ?r key) = (ring (GetNode r key))\<lparr>config := (config r)\<lparr>EnableLogs := b\<rparr>\<rparr>"
    by (simp add: GetNode_def g s Let_def split: option.splits sum.splits)
  moreover have "result (GetNode_hashring ?r key) = result (GetNode_hashring r key)
      \<and> ring (GetNode_hashring ?r key)
          = (ring (GetNode_hashring r key))\<lparr>config := (config r)\<lparr>EnableLogs := b\<rparr>\<rparr>"
    by (simp add: GetNode_hashring_def g s Let_def split: option.splits sum.splits)
  moreover have "result (RemoveNode ?r node) = result (RemoveNode r node)
      \<and> ring (RemoveNode ?r node)
          = (ring (RemoveNode r node))\<lparr>config := (config r)\<lparr>EnableLogs := b\<rparr>\<rparr>"
    by (simp add: RemoveNode_def g s s2 Let_def split: option.splits sum.splits)
  moreover have "HashRingInit (opts @ [EnableVerboseLogs b])
       = (HashRingInit opts)\<lparr>config := (config (HashRingInit opts))\<lparr>EnableLogs := b\<rparr>\<rparr>"
    by (simp add: HashRingInit_def EnableVerboseLogs_def)
  ultimately show ?thesis by blast
qed

end
